theory Spec2Isabelle
  imports Main "HOL-Library.AList"
begin

section \<open>The Ember service: values, objects and the store\<close>

text \<open>
  The service \<^verbatim>\<open>api/services/Ember.js\<close> reshapes Waterline query results into the document
  that Ember's REST adapter expects. The data it handles is JSON-like, so a JavaScript value
  is one of: \<^verbatim>\<open>undefined\<close>, \<^verbatim>\<open>null\<close>, a boolean, an integer number, a string, an array, a
  reference to an object the service is handed (what a root record serialises to, a record
  nested in it, a row of the join index), or an object the service creates (the clone of a
  root record, a \<^verbatim>\<open>links\<close> mapping); the latter are never shared or touched after they are
  built, so they are carried by value. Arrays are values too: the code never changes an
  array in place (\<^verbatim>\<open>concat\<close>, \<^verbatim>\<open>_.map\<close>, \<^verbatim>\<open>_.uniq\<close> and \<^verbatim>\<open>_.reduce\<close> build new ones).

  The objects it is handed live in a store, addressed by naturals, because
  \<^verbatim>\<open>linkAssociations\<close> writes their \<^verbatim>\<open>links\<close> field in place. An object is its list of own
  fields in insertion order. Field names are taken to be data names, not names of built-in
  members such as \<^verbatim>\<open>constructor\<close>.
\<close>

datatype jsval =
    Undefined
  | Null
  | Bool bool
  | Num int
  | Str string
  | Arr "jsval list"
  | Ref nat
  | Obj "(string \<times> jsval) list"

type_synonym fields = "(string \<times> jsval) list"
type_synonym store = "nat \<Rightarrow> fields option"
type_synonym document = "(string \<times> jsval list) list"

text \<open>
  \<open>TypeError\<close> is the exception JavaScript throws when a property of \<^verbatim>\<open>undefined\<close> or \<^verbatim>\<open>null\<close>
  is read or a missing method is called. \<open>Unmodelled\<close> marks inputs outside the data described
  above (a dangling reference, an array used as an identifier, a string where a list of
  records is expected): the embedding says nothing about the code there.
\<close>

datatype error = TypeError | Unmodelled

record assoc =
  a_alias :: string
  a_type :: string
  a_collection :: "string option"
  a_model :: "string option"
  a_via :: "string option"
  a_through :: bool
  a_include :: string

record modeldef =
  identity :: string
  globalId :: string
  associations :: "assoc list"

text \<open>
  The ambient \<^verbatim>\<open>sails\<close> object and the two libraries the service requires. \<^verbatim>\<open>lodash\<close> and
  \<^verbatim>\<open>pluralize\<close> are not part of the repository, so their functions are parameters:
  \<open>plural w\<close> is \<^verbatim>\<open>pluralize(w)\<close> and \<open>singular w\<close> is \<^verbatim>\<open>pluralize(w, 1)\<close>, whose argument is
  \<^verbatim>\<open>undefined\<close> when an association has no \<^verbatim>\<open>via\<close>.
\<close>

record env =
  kebabCase :: "string \<Rightarrow> string"
  camelCase :: "string \<Rightarrow> string"
  toLowerCase :: "string \<Rightarrow> string"
  plural :: "string \<Rightarrow> string"
  singular :: "string option \<Rightarrow> error + string"
  cfg_convertModelName :: "(string \<Rightarrow> bool \<Rightarrow> string) option"
  cfg_reverseModelName :: "(string \<Rightarrow> bool \<Rightarrow> error + string) option"
  blueprints_prefix :: string
  models :: "string \<Rightarrow> modeldef option"

subsection \<open>JavaScript primitives\<close>

fun truthy :: "jsval \<Rightarrow> bool" where
  "truthy Undefined = False"
| "truthy Null = False"
| "truthy (Bool b) = b"
| "truthy (Num n) = (n \<noteq> 0)"
| "truthy (Str s) = (s \<noteq> [])"
| "truthy (Arr xs) = True"
| "truthy (Ref a) = True"
| "truthy (Obj fs) = True"

text \<open>Reading an own field of an object: \<^verbatim>\<open>undefined\<close> when it is absent.\<close>

definition field :: "fields \<Rightarrow> string \<Rightarrow> jsval" where
  "field fs k = (case map_of fs k of None \<Rightarrow> Undefined | Some v \<Rightarrow> v)"

text \<open>\<^verbatim>\<open>v[k]\<close> for a data name \<open>k\<close>: a \<^verbatim>\<open>TypeError\<close> on \<^verbatim>\<open>undefined\<close> and \<^verbatim>\<open>null\<close>.\<close>

fun get_prop :: "store \<Rightarrow> jsval \<Rightarrow> string \<Rightarrow> error + jsval" where
  "get_prop h Undefined k = Inl TypeError"
| "get_prop h Null k = Inl TypeError"
| "get_prop h (Ref a) k = (case h a of None \<Rightarrow> Inl Unmodelled | Some fs \<Rightarrow> Inr (field fs k))"
| "get_prop h (Obj fs) k = Inr (field fs k)"
| "get_prop h v k = Inr Undefined"

text \<open>
  \<^verbatim>\<open>v[k] = x\<close> in sloppy mode (the file has no \<^verbatim>\<open>'use strict'\<close>): a write to a primitive is
  dropped, a write to \<^verbatim>\<open>undefined\<close> or \<^verbatim>\<open>null\<close> throws, a write to a stored object keeps the
  field's position when it exists and appends it otherwise.
\<close>

fun set_prop :: "store \<Rightarrow> jsval \<Rightarrow> string \<Rightarrow> jsval \<Rightarrow> error + store" where
  "set_prop h Undefined k x = Inl TypeError"
| "set_prop h Null k x = Inl TypeError"
| "set_prop h (Ref a) k x =
     (case h a of None \<Rightarrow> Inl Unmodelled | Some fs \<Rightarrow> Inr (h(a \<mapsto> AList.update k x fs)))"
| "set_prop h (Arr xs) k x = Inl Unmodelled"
| "set_prop h (Obj fs) k x = Inl Unmodelled"
| "set_prop h v k x = Inr h"

text \<open>Decimal rendering of an integer, as string concatenation does for a number.\<close>

fun show_nat :: "nat \<Rightarrow> string" where
  "show_nat n =
     (if n < 10 then [''0123456789'' ! n]
      else show_nat (n div 10) @ [''0123456789'' ! (n mod 10)])"

declare show_nat.simps [simp del]

definition show_int :: "int \<Rightarrow> string" where
  "show_int i = (if i < 0 then ''-'' @ show_nat (nat (- i)) else show_nat (nat i))"

fun join_comma :: "string list \<Rightarrow> string" where
  "join_comma [] = []"
| "join_comma [s] = s"
| "join_comma (s # t # ss) = s @ '','' @ join_comma (t # ss)"

text \<open>\<^verbatim>\<open>"" + v\<close>: the string a value contributes to a concatenation.\<close>

fun js_toString :: "jsval \<Rightarrow> string" where
  "js_toString Undefined = ''undefined''"
| "js_toString Null = ''null''"
| "js_toString (Bool b) = (if b then ''true'' else ''false'')"
| "js_toString (Num n) = show_int n"
| "js_toString (Str s) = s"
| "js_toString (Arr xs) =
     join_comma (map (\<lambda>x. if x = Undefined \<or> x = Null then [] else js_toString x) xs)"
| "js_toString (Ref a) = ''[object Object]''"
| "js_toString (Obj fs) = ''[object Object]''"

section \<open>Naming: \<^verbatim>\<open>convertModelName\<close> and \<^verbatim>\<open>reverseModelName\<close>\<close>

text \<open>
  The second argument is optional in the source (\<^verbatim>\<open>arguments.length < 2\<close> sets it to
  \<^verbatim>\<open>true\<close>): \<open>None\<close> is the call with one argument.
\<close>

definition convertModelName :: "env \<Rightarrow> string \<Rightarrow> bool option \<Rightarrow> string" where
  "convertModelName E modelName arg2 =
     (let convertToPlural = (case arg2 of None \<Rightarrow> True | Some b \<Rightarrow> b) in
      case cfg_convertModelName E of
        Some hook \<Rightarrow> hook modelName convertToPlural
      | None \<Rightarrow>
          (let modelName' = kebabCase E modelName in
           if convertToPlural then plural E modelName' else modelName'))"

definition reverseModelName :: "env \<Rightarrow> string \<Rightarrow> bool option \<Rightarrow> error + string" where
  "reverseModelName E transformedModelName arg2 =
     (let convertToSingular = (case arg2 of None \<Rightarrow> True | Some b \<Rightarrow> b) in
      case cfg_reverseModelName E of
        Some hook \<Rightarrow> hook transformedModelName convertToSingular
      | None \<Rightarrow>
          (let transformedModelName' = toLowerCase E (camelCase E transformedModelName) in
           if convertToSingular then singular E (Some transformedModelName')
           else Inr transformedModelName'))"

section \<open>\<^verbatim>\<open>linkAssociations\<close>\<close>

text \<open>
  The inner \<^verbatim>\<open>_.each(model.associations, ...)\<close> of \<^verbatim>\<open>linkAssociations\<close>, for one record:
  every association of type \<^verbatim>\<open>"collection"\<close> sets \<^verbatim>\<open>links[assoc.alias]\<close>.
\<close>

fun linkEach :: "env \<Rightarrow> string \<Rightarrow> store \<Rightarrow> jsval \<Rightarrow> assoc list \<Rightarrow> fields \<Rightarrow> error + fields" where
  "linkEach E modelPlural h record [] links = Inr links"
| "linkEach E modelPlural h record (a # as) links =
     (if a_type a = ''collection'' then
        (case get_prop h record ''id'' of
           Inl e \<Rightarrow> Inl e
         | Inr i \<Rightarrow>
             linkEach E modelPlural h record as
               (AList.update (a_alias a)
                  (Str (blueprints_prefix E @ ''/'' @ modelPlural @ ''/'' @ js_toString i
                        @ ''/'' @ a_alias a)) links))
      else linkEach E modelPlural h record as links)"

text \<open>The function mapped over the records: it returns its argument, so only the store changes.\<close>

definition linkRecord :: "env \<Rightarrow> string \<Rightarrow> assoc list \<Rightarrow> store \<Rightarrow> jsval \<Rightarrow> error + store" where
  "linkRecord E modelPlural as h record =
     (case linkEach E modelPlural h record as [] of
        Inl e \<Rightarrow> Inl e
      | Inr links \<Rightarrow>
          if length links > 0 then set_prop h record ''links'' (Obj links) else Inr h)"

fun linkMap :: "env \<Rightarrow> string \<Rightarrow> assoc list \<Rightarrow> store \<Rightarrow> jsval list \<Rightarrow> error + store" where
  "linkMap E modelPlural as h [] = Inr h"
| "linkMap E modelPlural as h (r # rs) =
     (case linkRecord E modelPlural as h r of
        Inl e \<Rightarrow> Inl e
      | Inr h' \<Rightarrow> linkMap E modelPlural as h' rs)"

text \<open>
  \<open>model\<close> is \<open>None\<close> when the caller looked it up in \<^verbatim>\<open>sails.models\<close> and found nothing:
  \<^verbatim>\<open>model.identity\<close> then throws.
\<close>

definition linkAssociations ::
  "env \<Rightarrow> modeldef option \<Rightarrow> jsval \<Rightarrow> store \<Rightarrow> error + (jsval list \<times> store)" where
  "linkAssociations E model records h =
     (let records' = (case records of Arr rs \<Rightarrow> rs | _ \<Rightarrow> [records]) in
      case model of
        None \<Rightarrow> Inl TypeError
      | Some m \<Rightarrow>
          (let modelPlural = convertModelName E (identity m) None in
           case linkMap E modelPlural (associations m) h records' of
             Inl e \<Rightarrow> Inl e
           | Inr h' \<Rightarrow> Inr (records', h')))"

section \<open>\<^verbatim>\<open>buildResponse\<close>\<close>

subsection \<open>Helpers for the JavaScript operators it uses\<close>

text \<open>The key that \<^verbatim>\<open>sails.models[x]\<close> reads: an \<^verbatim>\<open>undefined\<close> \<open>x\<close> is the name \<^verbatim>\<open>"undefined"\<close>.\<close>

definition optKey :: "string option \<Rightarrow> string" where
  "optKey x = (case x of None \<Rightarrow> ''undefined'' | Some s \<Rightarrow> s)"

text \<open>\<^verbatim>\<open>assoc.collection || assoc.model\<close>: the first operand when it is truthy.\<close>

definition targetKey :: "assoc \<Rightarrow> string" where
  "targetKey a =
     (case a_collection a of
        Some c \<Rightarrow> if c \<noteq> [] then c else optKey (a_model a)
      | None \<Rightarrow> optKey (a_model a))"

text \<open>
  \<^verbatim>\<open>self.convertModelName(sails.models[assoc.collection || assoc.model].globalId)\<close>:
  reading \<^verbatim>\<open>globalId\<close> of a model that is not registered throws.
\<close>

definition assocModelIdentifier :: "env \<Rightarrow> assoc \<Rightarrow> error + string" where
  "assocModelIdentifier E a =
     (case models E (targetKey a) of
        None \<Rightarrow> Inl TypeError
      | Some m \<Rightarrow> Inr (convertModelName E (globalId m) None))"

text \<open>
  \<^verbatim>\<open>x === y\<close>. Two arrays or two objects built during the call are equal only when they are
  the same object, which their values do not tell.
\<close>

fun by_identity :: "jsval \<Rightarrow> bool" where
  "by_identity (Arr xs) = True"
| "by_identity (Obj fs) = True"
| "by_identity v = False"

definition strict_eq :: "jsval \<Rightarrow> jsval \<Rightarrow> error + bool" where
  "strict_eq x y = (if by_identity x \<and> by_identity y then Inl Unmodelled else Inr (x = y))"

text \<open>\<^verbatim>\<open>v.length > 0\<close>, for a truthy \<open>v\<close>.\<close>

fun length_gt0 :: "store \<Rightarrow> jsval \<Rightarrow> error + bool" where
  "length_gt0 h (Arr xs) = Inr (xs \<noteq> [])"
| "length_gt0 h (Str s) = (if s = [] then Inr False else Inl Unmodelled)"
| "length_gt0 h (Ref a) =
     (case h a of
        None \<Rightarrow> Inl Unmodelled
      | Some fs \<Rightarrow> if map_of fs ''length'' = None then Inr False else Inl Unmodelled)"
| "length_gt0 h (Obj fs) = (if map_of fs ''length'' = None then Inr False else Inl Unmodelled)"
| "length_gt0 h Undefined = Inl TypeError"
| "length_gt0 h Null = Inl TypeError"
| "length_gt0 h v = Inr False"

text \<open>The elements \<^verbatim>\<open>xs.concat(v)\<close> appends: those of an array, or the value itself.\<close>

definition concat_arg :: "jsval \<Rightarrow> jsval list" where
  "concat_arg v = (case v of Arr xs \<Rightarrow> xs | _ \<Rightarrow> [v])"

subsection \<open>Preparing the sideload buckets (lines 87 to 99)\<close>

fun sideloadInit :: "env \<Rightarrow> assoc list \<Rightarrow> document \<Rightarrow> error + document" where
  "sideloadInit E [] json = Inr json"
| "sideloadInit E (a # as) json =
     (if a_include a = ''record'' then
        (case assocModelIdentifier E a of
           Inl e \<Rightarrow> Inl e
         | Inr ami \<Rightarrow>
             sideloadInit E as
               (if map_of json (a_alias a) = None then AList.update ami [] json else json))
      else sideloadInit E as json)"

subsection \<open>One association of one record (the body of the loop at line 106)\<close>

text \<open>Lines 120 to 123: \<^verbatim>\<open>_.reduce\<close> pushing \<^verbatim>\<open>rec.id\<close> for every nested record.\<close>

fun reduceIds :: "store \<Rightarrow> jsval list \<Rightarrow> jsval list \<Rightarrow> error + jsval list" where
  "reduceIds h [] filtered = Inr filtered"
| "reduceIds h (rcd # recs) filtered =
     (case get_prop h rcd ''id'' of
        Inl e \<Rightarrow> Inl e
      | Inr i \<Rightarrow> reduceIds h recs (filtered @ [i]))"

text \<open>
  Lines 127 to 135: \<^verbatim>\<open>_.reduce\<close> over the rows of \<^verbatim>\<open>associatedRecords[assoc.alias]\<close>, pushing
  \<^verbatim>\<open>rec[pushed]\<close> when \<^verbatim>\<open>rec[via] === record.id\<close>; \<open>pushed\<close> is \<^verbatim>\<open>assoc.collection\<close> with
  \<^verbatim>\<open>assoc.through\<close> and \<^verbatim>\<open>"id"\<close> without.
\<close>

fun reduceIndex ::
  "store \<Rightarrow> string \<Rightarrow> string \<Rightarrow> jsval \<Rightarrow> jsval list \<Rightarrow> jsval list \<Rightarrow> error + jsval list" where
  "reduceIndex h via' pushed rid [] filtered = Inr filtered"
| "reduceIndex h via' pushed rid (rcd # recs) filtered =
     (case get_prop h rcd via' of
        Inl e \<Rightarrow> Inl e
      | Inr v \<Rightarrow>
          (case strict_eq v rid of
             Inl e \<Rightarrow> Inl e
           | Inr True \<Rightarrow>
               (case get_prop h rcd pushed of
                  Inl e \<Rightarrow> Inl e
                | Inr t \<Rightarrow> reduceIndex h via' pushed rid recs (filtered @ [t]))
           | Inr False \<Rightarrow> reduceIndex h via' pushed rid recs filtered))"

text \<open>Lines 116 to 124: sideloading the records of a collection.\<close>

definition sideloadCollection ::
  "env \<Rightarrow> bool \<Rightarrow> string \<Rightarrow> assoc \<Rightarrow> fields \<times> document \<times> store
     \<Rightarrow> error + (fields \<times> document \<times> store)" where
  "sideloadCollection E sideload ami a st =
     (case st of (record, json, h) \<Rightarrow>
        if sideload \<and> a_include a = ''record'' \<and> truthy (field record (a_alias a)) then
          (case length_gt0 h (field record (a_alias a)) of
             Inl e \<Rightarrow> Inl e
           | Inr False \<Rightarrow> Inr (record, json, h)
           | Inr True \<Rightarrow>
               (case map_of json ami of
                  None \<Rightarrow> Inl TypeError
                | Some bucket \<Rightarrow>
                    (case linkAssociations E (models E (optKey (a_collection a)))
                            (field record (a_alias a)) h of
                       Inl e \<Rightarrow> Inl e
                     | Inr (linked, h') \<Rightarrow>
                         (case reduceIds h' (concat_arg (field record (a_alias a))) [] of
                            Inl e \<Rightarrow> Inl e
                          | Inr ids \<Rightarrow>
                              Inr (AList.update (a_alias a) (Arr ids) record,
                                   AList.update ami (bucket @ linked) json, h')))))
        else Inr (record, json, h))"

text \<open>Lines 125 to 137: the id list taken from \<^verbatim>\<open>associatedRecords\<close>.\<close>

definition indexCollection ::
  "(string \<times> jsval list) list option \<Rightarrow> string \<Rightarrow> assoc \<Rightarrow> store \<Rightarrow> fields \<Rightarrow> error + fields" where
  "indexCollection associatedRecords via' a h record =
     (if a_include a = ''index'' then
        (case associatedRecords of
           None \<Rightarrow> Inl TypeError
         | Some ar \<Rightarrow>
             (case map_of ar (a_alias a) of
                None \<Rightarrow> Inr record
              | Some rows \<Rightarrow>
                  (case reduceIndex h via'
                          (if a_through a then optKey (a_collection a) else ''id'')
                          (field record ''id'') rows [] of
                     Inl e \<Rightarrow> Inl e
                   | Inr ids \<Rightarrow> Inr (AList.update (a_alias a) (Arr ids) record))))
      else Inr record)"

text \<open>Lines 139 to 142: the hyperlink that replaces the field.\<close>

definition linkCollection :: "env \<Rightarrow> string \<Rightarrow> assoc \<Rightarrow> fields \<times> fields \<Rightarrow> fields \<times> fields" where
  "linkCollection E documentIdentifier a rl =
     (case rl of (record, links) \<Rightarrow>
        if a_include a = ''link'' then
          (AList.delete (a_alias a) record,
           AList.update (a_alias a)
             (Str (blueprints_prefix E @ ''/'' @ documentIdentifier @ ''/''
                   @ js_toString (field record ''id'') @ ''/'' @ a_alias a)) links)
        else (record, links))"

text \<open>Lines 145 to 157: a single related record.\<close>

definition sideloadModel ::
  "env \<Rightarrow> bool \<Rightarrow> string \<Rightarrow> assoc \<Rightarrow> fields \<times> document \<times> store
     \<Rightarrow> error + (fields \<times> document \<times> store)" where
  "sideloadModel E sideload ami a st =
     (case st of (record, json, h) \<Rightarrow>
        if a_type a = ''model'' \<and> truthy (field record (a_alias a)) then
          (if sideload \<and> a_include a = ''record'' then
             (case linkAssociations E (models E (optKey (a_model a)))
                     (field record (a_alias a)) h of
                Inl e \<Rightarrow> Inl e
              | Inr (linkedRecords, h') \<Rightarrow>
                  (case map_of json ami of
                     None \<Rightarrow> Inl TypeError
                   | Some bucket \<Rightarrow>
                       (case get_prop h' (case linkedRecords of [] \<Rightarrow> Undefined | r # rs \<Rightarrow> r)
                               ''id'' of
                          Inl e \<Rightarrow> Inl e
                        | Inr i \<Rightarrow>
                            Inr (AList.update (a_alias a) i record,
                                 AList.update ami (bucket @ concat_arg (field record (a_alias a)))
                                   json, h'))))
           else Inr (record, json, h))
        else Inr (record, json, h))"

text \<open>
  Lines 110 to 143, the branch for \<^verbatim>\<open>assoc.type === "collection"\<close>. \<^verbatim>\<open>via\<close> starts as the
  kebab-cased identity of the root model and is replaced by \<^verbatim>\<open>pluralize(assoc.via, 1)\<close> when
  the two differ.
\<close>

definition collectionBranch ::
  "env \<Rightarrow> string \<Rightarrow> string \<Rightarrow> bool \<Rightarrow> (string \<times> jsval list) list option \<Rightarrow> string \<Rightarrow> assoc
     \<Rightarrow> fields \<times> fields \<times> document \<times> store
     \<Rightarrow> error + (fields \<times> fields \<times> document \<times> store)" where
  "collectionBranch E emberModelIdentity documentIdentifier sideload associatedRecords ami a st =
     (case st of (record, links, json, h) \<Rightarrow>
        (case singular E (a_via a) of
           Inl e \<Rightarrow> Inl e
         | Inr s \<Rightarrow>
             (let via0 = kebabCase E emberModelIdentity;
                  via' = (if via0 \<noteq> s then s else via0) in
              case sideloadCollection E sideload ami a (record, json, h) of
                Inl e \<Rightarrow> Inl e
              | Inr (record1, json1, h1) \<Rightarrow>
                  (case indexCollection associatedRecords via' a h1 record1 of
                     Inl e \<Rightarrow> Inl e
                   | Inr record2 \<Rightarrow>
                       (case linkCollection E documentIdentifier a (record2, links) of
                          (record3, links3) \<Rightarrow> Inr (record3, links3, json1, h1))))))"

text \<open>The whole body: the target model's key, the collection branch, the model branch.\<close>

definition assocStep ::
  "env \<Rightarrow> string \<Rightarrow> string \<Rightarrow> bool \<Rightarrow> (string \<times> jsval list) list option \<Rightarrow> assoc
     \<Rightarrow> fields \<times> fields \<times> document \<times> store
     \<Rightarrow> error + (fields \<times> fields \<times> document \<times> store)" where
  "assocStep E emberModelIdentity documentIdentifier sideload associatedRecords a st =
     (case assocModelIdentifier E a of
        Inl e \<Rightarrow> Inl e
      | Inr ami \<Rightarrow>
          (case
             (if a_type a = ''collection''
              then collectionBranch E emberModelIdentity documentIdentifier sideload
                     associatedRecords ami a st
              else Inr st)
           of
             Inl e \<Rightarrow> Inl e
           | Inr (record4, links4, json4, h4) \<Rightarrow>
               (case sideloadModel E sideload ami a (record4, json4, h4) of
                  Inl e \<Rightarrow> Inl e
                | Inr (record5, json5, h5) \<Rightarrow> Inr (record5, links4, json5, h5))))"

fun assocEach ::
  "env \<Rightarrow> string \<Rightarrow> string \<Rightarrow> bool \<Rightarrow> (string \<times> jsval list) list option \<Rightarrow> assoc list
     \<Rightarrow> fields \<times> fields \<times> document \<times> store
     \<Rightarrow> error + (fields \<times> fields \<times> document \<times> store)" where
  "assocEach E emi di sideload ar [] st = Inr st"
| "assocEach E emi di sideload ar (a # as) st =
     (case assocStep E emi di sideload ar a st of
        Inl e \<Rightarrow> Inl e
      | Inr st' \<Rightarrow> assocEach E emi di sideload ar as st')"

subsection \<open>\<^verbatim>\<open>prepareOneRecord\<close>\<close>

text \<open>
  Modelled from the spec: \<^verbatim>\<open>record.toJSON()\<close> is a method of the ORM's records and is not
  part of the repository. The spec calls it the conversion of a live record to a plain
  mapping, of which line 103 makes a shallow clone (\<^verbatim>\<open>_.create({}, ...)\<close> copies the fields
  into a new object, the only one the loop assigns fields to). Here the stored object a
  root reference points to stands for that plain mapping: its fields are what \<^verbatim>\<open>toJSON\<close>
  returns, and the objects they hold are the nested records as the mapping holds them.
  Whether those are the caller's populated records or copies of them is for the ORM to say
  (Waterline serialises populated records in turn, so they are copies), and nothing is
  assumed about it: a statement that depends on it carries it as a hypothesis.
\<close>

definition toJSON :: "store \<Rightarrow> jsval \<Rightarrow> error + fields" where
  "toJSON h record =
     (case record of
        Ref a \<Rightarrow> (case h a of None \<Rightarrow> Inl Unmodelled | Some fs \<Rightarrow> Inr fs)
      | _ \<Rightarrow> Inl TypeError)"

definition prepareOneRecord ::
  "env \<Rightarrow> string \<Rightarrow> string \<Rightarrow> bool \<Rightarrow> (string \<times> jsval list) list option \<Rightarrow> assoc list
     \<Rightarrow> jsval \<Rightarrow> document \<times> store \<Rightarrow> error + (jsval \<times> document \<times> store)" where
  "prepareOneRecord E emi di sideload ar assocs record st =
     (case st of (json, h) \<Rightarrow>
        (case toJSON h record of
          Inl e \<Rightarrow> Inl e
        | Inr fs \<Rightarrow>
            (case assocEach E emi di sideload ar assocs (fs, [], json, h) of
               Inl e \<Rightarrow> Inl e
             | Inr (record', links, json', h') \<Rightarrow>
                 Inr (Obj (if length links > 0
                           then AList.update ''links'' (Obj links) record' else record'),
                      json', h'))))"

subsection \<open>The records, one or many (lines 166 to 172)\<close>

text \<open>
  In \<^verbatim>\<open>json[k] = json[k].concat(prepareOneRecord(record))\<close> the array \<^verbatim>\<open>json[k]\<close> is read
  before \<^verbatim>\<open>prepareOneRecord\<close> runs, so what that call stores under \<open>k\<close> is overwritten.
\<close>

fun eachRecord ::
  "env \<Rightarrow> string \<Rightarrow> string \<Rightarrow> bool \<Rightarrow> (string \<times> jsval list) list option \<Rightarrow> assoc list
     \<Rightarrow> jsval list \<Rightarrow> document \<times> store \<Rightarrow> error + (document \<times> store)" where
  "eachRecord E emi di sideload ar assocs [] st = Inr st"
| "eachRecord E emi di sideload ar assocs (r # rs) st =
     (case map_of (fst st) di of
        None \<Rightarrow> Inl TypeError
      | Some current \<Rightarrow>
          (case prepareOneRecord E emi di sideload ar assocs r st of
             Inl e \<Rightarrow> Inl e
           | Inr (rcd, json', h') \<Rightarrow>
               eachRecord E emi di sideload ar assocs rs
                 (AList.update di (current @ [rcd]) json', h')))"

subsection \<open>Removing duplicates and empty buckets (lines 177 to 186)\<close>

text \<open>
  \<^verbatim>\<open>_.uniq(array, function (record) { return record.id; })\<close>: an element is kept when its
  \<^verbatim>\<open>id\<close> is not among those seen before.
\<close>

fun uniq :: "store \<Rightarrow> jsval list \<Rightarrow> jsval list \<Rightarrow> jsval list \<Rightarrow> error + jsval list" where
  "uniq h seen result [] = Inr result"
| "uniq h seen result (v # vs) =
     (case get_prop h v ''id'' of
        Inl e \<Rightarrow> Inl e
      | Inr c \<Rightarrow>
          if by_identity c then Inl Unmodelled
          else if c \<in> set seen then uniq h seen result vs
          else uniq h (seen @ [c]) (result @ [v]) vs)"

fun dedupeEach :: "store \<Rightarrow> string \<Rightarrow> string list \<Rightarrow> document \<Rightarrow> error + document" where
  "dedupeEach h di [] json = Inr json"
| "dedupeEach h di (key # keys) json =
     (if key = di then dedupeEach h di keys json
      else
        (case map_of json key of
           None \<Rightarrow> Inl TypeError
         | Some array \<Rightarrow>
             if length array = 0 then dedupeEach h di keys (AList.delete key json)
             else
               (case uniq h [] [] array of
                  Inl e \<Rightarrow> Inl e
                | Inr u \<Rightarrow> dedupeEach h di keys (AList.update key u json))))"

subsection \<open>Links for the sideloaded records (lines 189 to 197)\<close>

definition isNumber :: "jsval \<Rightarrow> bool" where
  "isNumber v = (case v of Num n \<Rightarrow> True | _ \<Rightarrow> False)"

definition isString :: "jsval \<Rightarrow> bool" where
  "isString v = (case v of Str s \<Rightarrow> True | _ \<Rightarrow> False)"

fun relinkEach :: "env \<Rightarrow> string \<Rightarrow> document \<Rightarrow> store \<Rightarrow> error + store" where
  "relinkEach E di [] h = Inr h"
| "relinkEach E di ((key, array) # rest) h =
     (if key = di then relinkEach E di rest h
      else if length array > 0 \<and> \<not> isNumber (hd array) \<and> \<not> isString (hd array) then
        (case reverseModelName E key None of
           Inl e \<Rightarrow> Inl e
         | Inr name \<Rightarrow>
             (case linkAssociations E (models E name) (Arr array) h of
                Inl e \<Rightarrow> Inl e
              | Inr (linked, h') \<Rightarrow> relinkEach E di rest h'))
      else relinkEach E di rest h)"

subsection \<open>The function\<close>

text \<open>Lines 83 to 99: the root key, and with sideloading the buckets.\<close>

definition startDocument :: "env \<Rightarrow> string \<Rightarrow> assoc list \<Rightarrow> bool \<Rightarrow> error + document" where
  "startDocument E documentIdentifier assocs sideload =
     (let json = [(documentIdentifier, [])] in
      if sideload then sideloadInit E assocs json else Inr json)"

text \<open>
  \<open>associatedRecords\<close> is \<open>None\<close> when the caller leaves the fifth argument out. The result is
  the document together with the store the call leaves behind. The function is given in two
  parts: \<open>fillDocument\<close> is lines 77 to 172, the document before duplicates and empty buckets
  are removed, and \<open>buildResponse\<close> adds the two passes of lines 174 to 198.
\<close>

definition fillDocument ::
  "env \<Rightarrow> modeldef \<Rightarrow> jsval \<Rightarrow> assoc list \<Rightarrow> bool \<Rightarrow> (string \<times> jsval list) list option
     \<Rightarrow> store \<Rightarrow> error + (document \<times> store)" where
  "fillDocument E model records assocs sideload associatedRecords h =
     (let emberModelIdentity = globalId model;
          documentIdentifier = convertModelName E emberModelIdentity None in
      case startDocument E documentIdentifier assocs sideload of
        Inl e \<Rightarrow> Inl e
      | Inr json1 \<Rightarrow>
          (case records of
             Arr rs \<Rightarrow>
               eachRecord E emberModelIdentity documentIdentifier sideload associatedRecords
                 assocs rs (json1, h)
           | _ \<Rightarrow>
               (case prepareOneRecord E emberModelIdentity documentIdentifier sideload
                       associatedRecords assocs records (json1, h) of
                  Inl e \<Rightarrow> Inl e
                | Inr (rcd, json', h') \<Rightarrow>
                    Inr (AList.update documentIdentifier [rcd] json', h'))))"

definition buildResponse ::
  "env \<Rightarrow> modeldef \<Rightarrow> jsval \<Rightarrow> assoc list \<Rightarrow> bool \<Rightarrow> (string \<times> jsval list) list option
     \<Rightarrow> store \<Rightarrow> error + (document \<times> store)" where
  "buildResponse E model records assocs sideload associatedRecords h =
     (let documentIdentifier = convertModelName E (globalId model) None in
      case fillDocument E model records assocs sideload associatedRecords h of
        Inl e \<Rightarrow> Inl e
      | Inr (json2, h2) \<Rightarrow>
          if sideload then
            (case dedupeEach h2 documentIdentifier (map fst json2) json2 of
               Inl e \<Rightarrow> Inl e
             | Inr json3 \<Rightarrow>
                 (case relinkEach E documentIdentifier json3 h2 of
                    Inl e \<Rightarrow> Inl e
                  | Inr h3 \<Rightarrow> Inr (json3, h3)))
          else Inr (json2, h2))"

section \<open>A sample application\<close>

text \<open>
  An environment to run the service in: a blog with posts, comments and tags, the blueprint
  prefix \<^verbatim>\<open>/api\<close> and no naming hooks. The library functions are given for the ASCII names
  the examples use, where they agree with \<^verbatim>\<open>lodash\<close> and \<^verbatim>\<open>pluralize\<close>: a word boundary is
  a capital letter or a hyphen, the plural adds an \<^verbatim>\<open>s\<close> and the singular drops one.
\<close>

definition lowerChar :: "char \<Rightarrow> char" where
  "lowerChar c =
     (case map_of (zip ''ABCDEFGHIJKLMNOPQRSTUVWXYZ'' ''abcdefghijklmnopqrstuvwxyz'') c of
        None \<Rightarrow> c | Some l \<Rightarrow> l)"

definition upperChar :: "char \<Rightarrow> char" where
  "upperChar c =
     (case map_of (zip ''abcdefghijklmnopqrstuvwxyz'' ''ABCDEFGHIJKLMNOPQRSTUVWXYZ'') c of
        None \<Rightarrow> c | Some u \<Rightarrow> u)"

fun sampleKebab :: "bool \<Rightarrow> string \<Rightarrow> string" where
  "sampleKebab start [] = []"
| "sampleKebab start (c # cs) =
     (if lowerChar c \<noteq> c
      then (if start then [] else ''-'') @ lowerChar c # sampleKebab False cs
      else c # sampleKebab False cs)"

fun sampleCamel :: "string \<Rightarrow> string" where
  "sampleCamel [] = []"
| "sampleCamel [c] = [c]"
| "sampleCamel (c # d # cs) =
     (if c = CHR ''-'' then upperChar d # sampleCamel cs else c # sampleCamel (d # cs))"

definition sampleSingular :: "string option \<Rightarrow> error + string" where
  "sampleSingular w =
     (case w of
        None \<Rightarrow> Inl TypeError
      | Some s \<Rightarrow> Inr (if s \<noteq> [] \<and> last s = CHR ''s'' then butlast s else s))"

definition commentModel :: modeldef where
  "commentModel =
     \<lparr>identity = ''comment'', globalId = ''Comment'',
      associations =
        [\<lparr>a_alias = ''replies'', a_type = ''collection'', a_collection = Some ''comment'',
          a_model = None, a_via = Some ''parent'', a_through = False, a_include = ''link''\<rparr>]\<rparr>"

definition tagModel :: modeldef where
  "tagModel = \<lparr>identity = ''tag'', globalId = ''Tag'', associations = []\<rparr>"

definition commentsAssoc :: assoc where
  "commentsAssoc =
     \<lparr>a_alias = ''comments'', a_type = ''collection'', a_collection = Some ''comment'',
      a_model = None, a_via = Some ''post'', a_through = False, a_include = ''record''\<rparr>"

definition tagsAssoc :: assoc where
  "tagsAssoc =
     \<lparr>a_alias = ''tags'', a_type = ''collection'', a_collection = Some ''tag'',
      a_model = None, a_via = Some ''posts'', a_through = False, a_include = ''record''\<rparr>"

definition postModel :: modeldef where
  "postModel =
     \<lparr>identity = ''post'', globalId = ''Post'', associations = [commentsAssoc, tagsAssoc]\<rparr>"

text \<open>
  A graph whose edges are kept in a join model: a row names its source under \<^verbatim>\<open>fromId\<close>
  and its target under \<^verbatim>\<open>toId\<close>. The service reads a row's target under the name of
  the association's collection, so that collection is registered as \<^verbatim>\<open>toId\<close>.
\<close>

definition targetsAssoc :: assoc where
  "targetsAssoc =
     \<lparr>a_alias = ''targets'', a_type = ''collection'', a_collection = Some ''toId'',
      a_model = None, a_via = Some ''fromId'', a_through = True, a_include = ''index''\<rparr>"

definition nodeModel :: modeldef where
  "nodeModel = \<lparr>identity = ''node'', globalId = ''Node'', associations = [targetsAssoc]\<rparr>"

definition toIdModel :: modeldef where
  "toIdModel = \<lparr>identity = ''toId'', globalId = ''ToId'', associations = []\<rparr>"

definition sampleEnv :: env where
  "sampleEnv =
     \<lparr>kebabCase = sampleKebab True,
      camelCase = sampleCamel,
      toLowerCase = map lowerChar,
      plural = (\<lambda>w. w @ ''s''),
      singular = sampleSingular,
      cfg_convertModelName = None,
      cfg_reverseModelName = None,
      blueprints_prefix = ''/api'',
      models =
        map_of [(''post'', postModel), (''comment'', commentModel), (''tag'', tagModel),
                (''node'', nodeModel), (''toId'', toIdModel)]\<rparr>"

text \<open>
  Two posts as a query with populated comments returns them: the first has two comments, the
  second shares one of them, and neither has tags.
\<close>

definition blogStore :: store where
  "blogStore =
     map_of
       [(1, [(''id'', Num 1), (''title'', Str ''Hello''), (''comments'', Arr [Ref 2, Ref 3]),
             (''tags'', Arr [])]),
        (2, [(''id'', Num 10), (''body'', Str ''first'')]),
        (3, [(''id'', Num 11), (''body'', Str ''second'')]),
        (4, [(''id'', Num 2), (''title'', Str ''Again''), (''comments'', Arr [Ref 3]),
             (''tags'', Arr [])])]"

text \<open>
  The document built from the first post with its comments sideloaded, the store the call
  leaves, and the document built from both posts, before and after the last pass.
\<close>

definition blogDocument :: document where
  "blogDocument =
     [(''posts'',
       [Obj [(''id'', Num 1), (''title'', Str ''Hello''), (''comments'', Arr [Num 10, Num 11]),
             (''tags'', Arr [])]]),
      (''comments'', [Ref 2, Ref 3])]"

definition linkedStore :: store where
  "linkedStore =
     blogStore
       (2 \<mapsto> [(''id'', Num 10), (''body'', Str ''first''),
              (''links'', Obj [(''replies'', Str ''/api/comments/10/replies'')])],
        3 \<mapsto> [(''id'', Num 11), (''body'', Str ''second''),
              (''links'', Obj [(''replies'', Str ''/api/comments/11/replies'')])])"

definition batchFilled :: document where
  "batchFilled =
     [(''posts'',
       [Obj [(''id'', Num 1), (''title'', Str ''Hello''), (''comments'', Arr [Num 10, Num 11]),
             (''tags'', Arr [])],
        Obj [(''id'', Num 2), (''title'', Str ''Again''), (''comments'', Arr [Num 11]),
             (''tags'', Arr [])]]),
      (''comments'', [Ref 2, Ref 3, Ref 3]),
      (''tags'', [])]"

definition batchDocument :: document where
  "batchDocument =
     [(''posts'',
       [Obj [(''id'', Num 1), (''title'', Str ''Hello''), (''comments'', Arr [Num 10, Num 11]),
             (''tags'', Arr [])],
        Obj [(''id'', Num 2), (''title'', Str ''Again''), (''comments'', Arr [Num 11]),
             (''tags'', Arr [])]]),
      (''comments'', [Ref 2, Ref 3])]"




text \<open>
  The comments of a post behind a hyperlink, the document this gives for the two posts, and
  an association that is itself called \<^verbatim>\<open>links\<close>.
\<close>

definition commentsLinkAssoc :: assoc where
  "commentsLinkAssoc =
     \<lparr>a_alias = ''comments'', a_type = ''collection'', a_collection = Some ''comment'',
      a_model = None, a_via = Some ''post'', a_through = False, a_include = ''link''\<rparr>"

definition linksAssoc :: assoc where
  "linksAssoc =
     \<lparr>a_alias = ''links'', a_type = ''collection'', a_collection = Some ''comment'',
      a_model = None, a_via = Some ''post'', a_through = False, a_include = ''link''\<rparr>"

definition linkedPosts :: document where
  "linkedPosts =
     [(''posts'',
       [Obj [(''id'', Num 1), (''title'', Str ''Hello''), (''tags'', Arr []),
             (''links'', Obj [(''comments'', Str ''/api/posts/1/comments'')])],
        Obj [(''id'', Num 2), (''title'', Str ''Again''), (''tags'', Arr []),
             (''links'', Obj [(''comments'', Str ''/api/posts/2/comments'')])]])]"






section \<open>Notions used in the statements\<close>

definition hasCollection :: "assoc list \<Rightarrow> bool" where
  "hasCollection as = (\<exists>a \<in> set as. a_type a = ''collection'')"

definition linkUrl :: "env \<Rightarrow> string \<Rightarrow> jsval \<Rightarrow> string \<Rightarrow> jsval" where
  "linkUrl E key i k = Str (blueprints_prefix E @ ''/'' @ key @ ''/'' @ js_toString i @ ''/'' @ k)"

definition collectionAliases :: "assoc list \<Rightarrow> string set" where
  "collectionAliases as = set (map a_alias (filter (\<lambda>a. a_type a = ''collection'') as))"

definition linked :: "env \<Rightarrow> string \<Rightarrow> assoc list \<Rightarrow> fields \<Rightarrow> fields \<Rightarrow> bool" where
  "linked E key as fs fs' =
     (\<exists>links. fs' = AList.update ''links'' (Obj links) fs \<and>
        (\<forall>k. map_of links k =
           (if k \<in> collectionAliases as then Some (linkUrl E key (field fs ''id'') k) else None)))"

definition links_frame :: "store \<Rightarrow> store \<Rightarrow> bool" where
  "links_frame h h' =
     (\<forall>a. map_option (AList.delete ''links'') (h' a) = map_option (AList.delete ''links'') (h a))"

definition allObj :: "jsval list \<Rightarrow> bool" where
  "allObj vs = (\<forall>v \<in> set vs. \<exists>fs. v = Obj fs)"

text \<open>
  Keeping, of the elements with the same key, the first: what the claims call removing
  duplicates by identifier, first occurrence preserved.
\<close>

function keepFirst :: "('a \<Rightarrow> 'b) \<Rightarrow> 'a list \<Rightarrow> 'a list" where
  "keepFirst f [] = []"
| "keepFirst f (x # xs) = x # keepFirst f (filter (\<lambda>y. f y \<noteq> f x) xs)"
  by pat_completeness auto
termination
  by (relation "measure (\<lambda>(f, xs). length xs)") (auto simp: less_Suc_eq_le)

text \<open>
  What the last pass makes of a bucket: an absent or empty bucket is absent, any other keeps
  the first record of every identifier.
\<close>

definition dedupedBucket :: "store \<Rightarrow> jsval list option \<Rightarrow> jsval list option" where
  "dedupedBucket h b =
     (case b of
        None \<Rightarrow> None
      | Some bucket \<Rightarrow>
          if bucket = [] then None else Some (keepFirst (\<lambda>v. get_prop h v ''id'') bucket))"

text \<open>A collection field with nothing to sideload: absent, \<^verbatim>\<open>null\<close> or an empty list.\<close>

definition emptyCollection :: "jsval \<Rightarrow> bool" where
  "emptyCollection v = (v = Undefined \<or> v = Null \<or> v = Arr [])"

text \<open>
  A record and its clone when an association is served by a hyperlink: the clone has no field
  of that alias, and its \<^verbatim>\<open>links\<close> mapping sends the alias to
  \<^verbatim>\<open>prefix/root-key/record-id/alias\<close>.
\<close>

definition hyperlinked :: "env \<Rightarrow> string \<Rightarrow> assoc \<Rightarrow> store \<Rightarrow> jsval \<Rightarrow> jsval \<Rightarrow> bool" where
  "hyperlinked E di a h r c =
     (\<exists>addr fs cl lk. r = Ref addr \<and> h addr = Some fs \<and> c = Obj cl
        \<and> map_of cl (a_alias a) = None \<and> map_of cl ''links'' = Some (Obj lk)
        \<and> map_of lk (a_alias a) = Some (linkUrl E di (field fs ''id'') (a_alias a)))"




text \<open>
  The objects a call may write to. A value holds an object when it is a reference to it or
  an array with such a reference among its elements. The records nested in a root record
  are the objects that a field of its serialisation holds under the alias of an association
  with the policy \<^verbatim>\<open>"record"\<close>: \<open>taken\<close> for one association, \<open>sideloadable\<close> for a list of
  them, \<open>nestedRecords\<close> for all the root records of a call. \<open>links_only S\<close> relates two
  stores that differ at most in the \<^verbatim>\<open>links\<close> field of objects of \<open>S\<close>, which then holds a
  mapping built by the service. \<open>docRefs\<close> are the objects listed in a document.
\<close>

definition held :: "jsval \<Rightarrow> nat set" where
  "held v = {x. Ref x \<in> set (concat_arg v)}"




definition links_only :: "nat set \<Rightarrow> store \<Rightarrow> store \<Rightarrow> bool" where
  "links_only S h h' =
     (\<forall>x. h' x = h x
        \<or> (x \<in> S \<and> (\<exists>fs l. h x = Some fs \<and> h' x = Some (AList.update ''links'' (Obj l) fs))))"




definition same_keys :: "document \<Rightarrow> document \<Rightarrow> bool" where
  "same_keys jh jg = (dom (map_of jg) = dom (map_of jh))"

section \<open>Properties of the store\<close>

subsection \<open>Writes to \<^verbatim>\<open>links\<close>\<close>

lemma links_frame_refl [simp]: "links_frame h h"
  by (simp add: links_frame_def)

lemma links_frame_trans: "links_frame h h1 \<Longrightarrow> links_frame h1 h2 \<Longrightarrow> links_frame h h2"
  by (simp add: links_frame_def)

lemma links_frame_None: "links_frame h h' \<Longrightarrow> (h' a = None) = (h a = None)"
proof -
  assume "links_frame h h'"
  then have "map_option (AList.delete ''links'') (h' a) = map_option (AList.delete ''links'') (h a)"
    by (simp add: links_frame_def)
  then show ?thesis by (cases "h a"; cases "h' a"; simp)
qed

lemma field_delete_other: "k \<noteq> d \<Longrightarrow> field (AList.delete d fs) k = field fs k"
  by (simp add: field_def)

lemma links_frame_field:
  assumes "links_frame h h'" "h a = Some fs" "h' a = Some fs'" "k \<noteq> ''links''"
  shows "field fs' k = field fs k"
proof -
  from assms(1) have "map_option (AList.delete ''links'') (h' a) = map_option (AList.delete ''links'') (h a)"
    by (simp add: links_frame_def)
  with assms(2,3) have "AList.delete ''links'' fs' = AList.delete ''links'' fs" by simp
  then have "field (AList.delete ''links'' fs') k = field (AList.delete ''links'' fs) k" by simp
  with assms(4) show ?thesis by (simp add: field_delete_other)
qed

lemma links_frame_get_prop:
  assumes "links_frame h h'" "k \<noteq> ''links''"
  shows "get_prop h' v k = get_prop h v k"
proof (cases v)
  case (Ref a)
  show ?thesis
  proof (cases "h a")
    case None
    with assms(1) have "h' a = None" by (simp add: links_frame_None)
    with None Ref show ?thesis by simp
  next
    case (Some fs)
    with assms(1) obtain fs' where fs': "h' a = Some fs'"
      using links_frame_None [OF assms(1), of a] by (cases "h' a") auto
    from links_frame_field [OF assms(1) Some fs' assms(2)] Some fs' Ref show ?thesis by simp
  qed
qed simp_all

lemma set_prop_links_frame: "set_prop h v ''links'' x = Inr h' \<Longrightarrow> links_frame h h'"
  by (cases v) (auto simp: links_frame_def AList.delete_update_same split: option.splits)

lemma linkRecord_frame: "linkRecord E mp as h r = Inr h' \<Longrightarrow> links_frame h h'"
  by (auto simp: linkRecord_def set_prop_links_frame split: sum.splits if_splits)

lemma linkMap_frame: "linkMap E mp as h rs = Inr h' \<Longrightarrow> links_frame h h'"
proof (induction rs arbitrary: h)
  case Nil
  then show ?case by simp
next
  case (Cons r rs)
  then obtain h1 where 1: "linkRecord E mp as h r = Inr h1" and 2: "linkMap E mp as h1 rs = Inr h'"
    by (auto split: sum.splits)
  from linkRecord_frame [OF 1] Cons.IH [OF 2] show ?case by (rule links_frame_trans)
qed

lemma linkAssociations_frame:
  "linkAssociations E model records h = Inr (out, h') \<Longrightarrow> links_frame h h'"
  by (auto simp: linkAssociations_def Let_def linkMap_frame split: option.splits sum.splits)

lemma linkAssociations_out:
  "linkAssociations E model records h = Inr (out, h') \<Longrightarrow>
     out = (case records of Arr rs \<Rightarrow> rs | _ \<Rightarrow> [records])"
  by (auto simp: linkAssociations_def Let_def split: option.splits sum.splits)


lemma linkEach_map_of:
  assumes "linkEach E mp h r as links0 = Inr links" "get_prop h r ''id'' = Inr i"
  shows "map_of links k =
     (if k \<in> collectionAliases as then Some (linkUrl E mp i k) else map_of links0 k)"
  using assms
proof (induction as arbitrary: links0)
  case Nil
  then show ?case by (simp add: collectionAliases_def)
next
  case (Cons a as)
  show ?case
  proof (cases "a_type a = ''collection''")
    case True
    with Cons.prems have "linkEach E mp h r as
        (AList.update (a_alias a) (linkUrl E mp i (a_alias a)) links0) = Inr links"
      by (simp add: linkUrl_def)
    from Cons.IH [OF this Cons.prems(2)] True show ?thesis
      by (auto simp: collectionAliases_def update_conv')
  next
    case False
    with Cons.prems have "linkEach E mp h r as links0 = Inr links" by simp
    from Cons.IH [OF this Cons.prems(2)] False show ?thesis
      by (auto simp: collectionAliases_def)
  qed
qed

lemma linkEach_no_collection: "\<not> hasCollection as \<Longrightarrow> linkEach E mp h r as links = Inr links"
  by (induction as arbitrary: links) (auto simp: hasCollection_def)

lemma linkEach_reads_id:
  "linkEach E mp h r as links0 = Inr links \<Longrightarrow> hasCollection as \<Longrightarrow> \<exists>i. get_prop h r ''id'' = Inr i"
  by (induction as arbitrary: links0) (auto simp: hasCollection_def split: if_splits sum.splits)

lemma linkEach_nonempty:
  "linkEach E mp h r as links0 = Inr links \<Longrightarrow> hasCollection as \<or> links0 \<noteq> [] \<Longrightarrow> links \<noteq> []"
proof (induction as arbitrary: links0)
  case Nil
  then show ?case by (simp add: hasCollection_def)
next
  case (Cons a as)
  show ?case
  proof (cases "a_type a = ''collection''")
    case True
    with Cons.prems(1) obtain i where
      "linkEach E mp h r as (AList.update (a_alias a) (linkUrl E mp i (a_alias a)) links0) = Inr links"
      by (auto simp: linkUrl_def split: sum.splits)
    from Cons.IH [OF this] show ?thesis by simp
  next
    case False
    with Cons.prems have "linkEach E mp h r as links0 = Inr links"
      and "hasCollection as \<or> links0 \<noteq> []" by (auto simp: hasCollection_def)
    then show ?thesis by (rule Cons.IH)
  qed
qed

lemma field_update_other: "k \<noteq> d \<Longrightarrow> field (AList.update d v fs) k = field fs k"
  by (simp add: field_def update_conv')

lemma linkRecord_unchanged: "\<not> hasCollection as \<Longrightarrow> linkRecord E mp as h r = Inr h"
  by (simp add: linkRecord_def linkEach_no_collection)

lemma linkRecord_Ref:
  assumes "linkRecord E mp as h (Ref a) = Inr h'" "hasCollection as"
  shows "\<exists>fs fs'. h a = Some fs \<and> h' = h(a \<mapsto> fs') \<and> linked E mp as fs fs'"
proof -
  from assms(1) obtain links where le: "linkEach E mp h (Ref a) as [] = Inr links"
    by (auto simp: linkRecord_def split: sum.splits)
  from linkEach_reads_id [OF le assms(2)] obtain fs where fs: "h a = Some fs"
    by (auto split: option.splits)
  then have gp: "get_prop h (Ref a) ''id'' = Inr (field fs ''id'')" by simp
  from linkEach_nonempty [OF le] assms(2) have "links \<noteq> []" by simp
  with assms(1) le fs have h': "h' = h(a \<mapsto> AList.update ''links'' (Obj links) fs)"
    by (simp add: linkRecord_def)
  have "\<forall>k. map_of links k =
           (if k \<in> collectionAliases as then Some (linkUrl E mp (field fs ''id'') k) else None)"
    using linkEach_map_of [OF le gp] by simp
  then have "linked E mp as fs (AList.update ''links'' (Obj links) fs)"
    unfolding linked_def by blast
  with fs h' show ?thesis by blast
qed

lemma linkRecord_other:
  assumes "linkRecord E mp as h r = Inr h'" "r \<noteq> Ref a"
  shows "h' a = h a"
proof (cases "hasCollection as")
  case False
  with assms(1) show ?thesis by (simp add: linkRecord_unchanged)
next
  case True
  show ?thesis
  proof (cases r)
    case (Ref b)
    with assms(2) have "b \<noteq> a" by simp
    from linkRecord_Ref [OF assms(1) [unfolded Ref] True] this show ?thesis by auto
  qed (use assms(1) in \<open>auto simp: linkRecord_def split: sum.splits if_splits\<close>)
qed

lemma linked_again:
  assumes "linked E mp as fs fs1" "linked E mp as fs1 fs2"
  shows "linked E mp as fs fs2"
proof -
  from assms(1) obtain l1 where 1: "fs1 = AList.update ''links'' (Obj l1) fs"
    by (auto simp: linked_def)
  then have "field fs1 ''id'' = field fs ''id''" by (simp add: field_update_other)
  with assms(2) 1 show ?thesis by (auto simp: linked_def)
qed

lemma linkMap_char:
  assumes "linkMap E mp as h rs = Inr h'" "hasCollection as"
  shows "(Ref a \<in> set rs \<longrightarrow> (\<exists>fs fs'. h a = Some fs \<and> h' a = Some fs' \<and> linked E mp as fs fs'))
       \<and> (Ref a \<notin> set rs \<longrightarrow> h' a = h a)"
  using assms(1)
proof (induction rs arbitrary: h)
  case Nil
  then show ?case by simp
next
  case (Cons r rs)
  then obtain h1 where 1: "linkRecord E mp as h r = Inr h1" and 2: "linkMap E mp as h1 rs = Inr h'"
    by (auto split: sum.splits)
  note IH = Cons.IH [OF 2]
  show ?case
  proof (cases "r = Ref a")
    case True
    from linkRecord_Ref [OF 1 [unfolded True] assms(2)] obtain fs fs1
      where fs: "h a = Some fs" "h1 a = Some fs1" "linked E mp as fs fs1" by auto
    show ?thesis
    proof (cases "Ref a \<in> set rs")
      case in_rs: True
      with IH fs(2) obtain fs' where "h' a = Some fs'" "linked E mp as fs1 fs'" by auto
      with fs linked_again [OF fs(3)] True show ?thesis by auto
    next
      case False
      with IH have "h' a = h1 a" by simp
      with fs True show ?thesis by auto
    qed
  next
    case False
    from linkRecord_other [OF 1 False] have "h1 a = h a" .
    with IH False show ?thesis by auto
  qed
qed

lemma linkMap_unchanged: "\<not> hasCollection as \<Longrightarrow> linkMap E mp as h rs = Inr h"
  by (induction rs) (simp_all add: linkRecord_unchanged)

subsection \<open>The store through \<^verbatim>\<open>buildResponse\<close>\<close>

lemma sideloadCollection_frame:
  "sideloadCollection E sl ami a (record, json, h) = Inr (record', json', h') \<Longrightarrow> links_frame h h'"
  by (auto simp: sideloadCollection_def split: if_splits sum.splits bool.splits option.splits
           dest: linkAssociations_frame)

lemma sideloadCollection_off:
  "sideloadCollection E False ami a st = Inr st"
  by (cases st) (simp add: sideloadCollection_def)

lemma sideloadModel_frame:
  "sideloadModel E sl ami a (record, json, h) = Inr (record', json', h') \<Longrightarrow> links_frame h h'"
  by (auto simp: sideloadModel_def split: if_splits sum.splits option.splits
           dest: linkAssociations_frame)

lemma sideloadModel_off:
  "sideloadModel E False ami a st = Inr st"
  by (cases st) (simp add: sideloadModel_def)

lemma collectionBranch_frame:
  "collectionBranch E emi di sl ar ami a (r0, links, json, h) = Inr (r', links', json', h')
     \<Longrightarrow> links_frame h h'"
  by (auto simp: collectionBranch_def Let_def split: sum.splits prod.splits
           dest: sideloadCollection_frame)

lemma assocStep_frame:
  assumes "assocStep E emi di sl ar a (r0, links, json, h) = Inr (r', links', json', h')"
  shows "links_frame h h'"
proof -
  from assms obtain ami r4 l4 j4 h4 where
    mid: "(if a_type a = ''collection''
           then collectionBranch E emi di sl ar ami a (r0, links, json, h)
           else Inr (r0, links, json, h)) = Inr (r4, l4, j4, h4)"
    and fin: "sideloadModel E sl ami a (r4, j4, h4) = Inr (r', json', h')"
    by (auto simp: assocStep_def split: sum.splits prod.splits)
  from mid have "links_frame h h4"
    by (auto split: if_splits dest: collectionBranch_frame)
  with sideloadModel_frame [OF fin] show ?thesis by (blast intro: links_frame_trans)
qed

lemma assocEach_frame:
  "assocEach E emi di sl ar as (r0, links, json, h) = Inr (r', links', json', h')
     \<Longrightarrow> links_frame h h'"
proof (induction as arbitrary: r0 links json h)
  case Nil
  then show ?case by simp
next
  case (Cons a as)
  then obtain r1 l1 j1 h1 where
    1: "assocStep E emi di sl ar a (r0, links, json, h) = Inr (r1, l1, j1, h1)" and
    2: "assocEach E emi di sl ar as (r1, l1, j1, h1) = Inr (r', links', json', h')"
    by (auto split: sum.splits)
  from assocStep_frame [OF 1] Cons.IH [OF 2] show ?case by (rule links_frame_trans)
qed

lemma prepareOneRecord_frame:
  "prepareOneRecord E emi di sl ar as r (json, h) = Inr (c, json', h') \<Longrightarrow> links_frame h h'"
  by (auto simp: prepareOneRecord_def split: sum.splits prod.splits dest: assocEach_frame)

lemma eachRecord_frame:
  "eachRecord E emi di sl ar as rs (json, h) = Inr (json', h') \<Longrightarrow> links_frame h h'"
proof (induction rs arbitrary: json h)
  case Nil
  then show ?case by simp
next
  case (Cons r rs)
  then obtain cur c j1 h1 where
    1: "prepareOneRecord E emi di sl ar as r (json, h) = Inr (c, j1, h1)" and
    2: "eachRecord E emi di sl ar as rs (AList.update di (cur @ [c]) j1, h1) = Inr (json', h')"
    by (auto split: option.splits sum.splits)
  from prepareOneRecord_frame [OF 1] Cons.IH [OF 2] show ?case by (rule links_frame_trans)
qed

lemma relinkEach_frame: "relinkEach E di json h = Inr h' \<Longrightarrow> links_frame h h'"
proof (induction json arbitrary: h)
  case Nil
  then show ?case by simp
next
  case (Cons kv rest)
  obtain key array where kv: "kv = (key, array)" by (cases kv)
  from Cons.prems kv consider "relinkEach E di rest h = Inr h'"
    | name out h1 where "linkAssociations E (models E name) (Arr array) h = Inr (out, h1)"
        "relinkEach E di rest h1 = Inr h'"
    by (auto split: if_splits sum.splits)
  then show ?case
  proof cases
    case 1
    then show ?thesis by (rule Cons.IH)
  next
    case 2
    from linkAssociations_frame [OF 2(1)] Cons.IH [OF 2(2)] show ?thesis
      by (rule links_frame_trans)
  qed
qed

lemma fillDocument_frame:
  "fillDocument E model records assocs sl ar h = Inr (json, h') \<Longrightarrow> links_frame h h'"
  by (auto simp: fillDocument_def Let_def split: sum.splits jsval.splits prod.splits if_splits
           dest: eachRecord_frame prepareOneRecord_frame)

lemma buildResponse_frame:
  "buildResponse E model records assocs sl ar h = Inr (doc, h') \<Longrightarrow> links_frame h h'"
  by (auto simp: buildResponse_def Let_def split: sum.splits prod.splits if_splits
           dest: fillDocument_frame relinkEach_frame intro: links_frame_trans)


subsection \<open>Without sideloading\<close>

lemma collectionBranch_off:
  "collectionBranch E emi di False ar ami a (r0, links, json, h) = Inr (r', links', json', h')
     \<Longrightarrow> json' = json \<and> h' = h
         \<and> collectionBranch E emi di False ar ami a (r0, links, j, h) = Inr (r', links', j, h)"
  by (auto simp: collectionBranch_def Let_def sideloadCollection_off split: sum.splits prod.splits)

lemma assocStep_off:
  assumes "assocStep E emi di False ar a (r0, links, json, h) = Inr (r', links', json', h')"
  shows "json' = json \<and> h' = h \<and> assocStep E emi di False ar a (r0, links, j, h) = Inr (r', links', j, h)"
proof -
  from assms obtain ami where ami: "assocModelIdentifier E a = Inr ami"
    by (auto simp: assocStep_def split: sum.splits)
  show ?thesis
  proof (cases "a_type a = ''collection''")
    case True
    with assms ami have cb: "collectionBranch E emi di False ar ami a (r0, links, json, h)
        = Inr (r', links', json', h')"
      by (auto simp: assocStep_def sideloadModel_off split: sum.splits prod.splits)
    from collectionBranch_off [OF cb, of j] True ami show ?thesis
      by (simp add: assocStep_def sideloadModel_off)
  next
    case False
    with assms ami show ?thesis by (simp add: assocStep_def sideloadModel_off)
  qed
qed

lemma assocEach_off:
  "assocEach E emi di False ar as (r0, links, json, h) = Inr (r', links', json', h')
     \<Longrightarrow> json' = json \<and> h' = h
         \<and> assocEach E emi di False ar as (r0, links, j, h) = Inr (r', links', j, h)"
proof (induction as arbitrary: r0 links)
  case Nil
  then show ?case by simp
next
  case (Cons a as)
  then obtain r1 l1 j1 h1 where
    1: "assocStep E emi di False ar a (r0, links, json, h) = Inr (r1, l1, j1, h1)" and
    2: "assocEach E emi di False ar as (r1, l1, j1, h1) = Inr (r', links', json', h')"
    by (auto split: sum.splits)
  from assocStep_off [OF 1, of j] have 3: "j1 = json" "h1 = h"
    "assocStep E emi di False ar a (r0, links, j, h) = Inr (r1, l1, j, h)" by simp_all
  from Cons.IH [OF 2 [unfolded 3(1,2)]] 3 show ?case by simp
qed

lemma prepareOneRecord_off:
  assumes "prepareOneRecord E emi di False ar as r (json, h) = Inr (c, json', h')"
  shows "json' = json \<and> h' = h \<and> prepareOneRecord E emi di False ar as r (j, h) = Inr (c, j, h)"
proof -
  from assms obtain fs r' links where fs: "toJSON h r = Inr fs"
    and ae: "assocEach E emi di False ar as (fs, [], json, h) = Inr (r', links, json', h')"
    and c: "c = Obj (if length links > 0 then AList.update ''links'' (Obj links) r' else r')"
    by (auto simp: prepareOneRecord_def split: sum.splits prod.splits)
  from assocEach_off [OF ae, of j] fs c show ?thesis by (simp add: prepareOneRecord_def)
qed



subsection \<open>The root entries are clones\<close>

lemma sideloadInit_root:
  "sideloadInit E as json = Inr json' \<Longrightarrow> map_of json di = Some [] \<Longrightarrow> map_of json' di = Some []"
  by (induction as arbitrary: json) (auto simp: update_conv' split: if_splits sum.splits)

lemma startDocument_root: "startDocument E di assocs sl = Inr json \<Longrightarrow> map_of json di = Some []"
  by (auto simp: startDocument_def Let_def split: if_splits dest: sideloadInit_root [where di = di])

lemma prepareOneRecord_Obj:
  "prepareOneRecord E emi di sl ar as r st = Inr (c, json', h') \<Longrightarrow> \<exists>fs. c = Obj fs"
  by (cases st) (auto simp: prepareOneRecord_def split: sum.splits prod.splits)

lemma eachRecord_root:
  assumes "eachRecord E emi di sl ar as rs (json, h) = Inr (json', h')"
    and "map_of json di = Some xs" "allObj xs"
  shows "\<exists>ys. map_of json' di = Some ys \<and> allObj ys"
  using assms
proof (induction rs arbitrary: json h xs)
  case Nil
  then show ?case by auto
next
  case (Cons r rs)
  from Cons.prems obtain c j1 h1 where
    1: "prepareOneRecord E emi di sl ar as r (json, h) = Inr (c, j1, h1)" and
    2: "eachRecord E emi di sl ar as rs (AList.update di (xs @ [c]) j1, h1) = Inr (json', h')"
    by (auto split: option.splits sum.splits)
  from prepareOneRecord_Obj [OF 1] Cons.prems(3) have "allObj (xs @ [c])"
    by (auto simp: allObj_def)
  moreover have "map_of (AList.update di (xs @ [c]) j1) di = Some (xs @ [c])"
    by (simp add: update_conv')
  ultimately show ?case using Cons.IH [OF 2] by blast
qed

lemma fillDocument_root:
  assumes "fillDocument E model records assocs sl ar h = Inr (json, h')"
  shows "\<exists>ys. map_of json (convertModelName E (globalId model) None) = Some ys \<and> allObj ys"
proof -
  let ?di = "convertModelName E (globalId model) None"
  from assms obtain json1 where
    init: "startDocument E ?di assocs sl = Inr json1"
    by (auto simp: fillDocument_def Let_def split: sum.splits)
  then have root1: "map_of json1 ?di = Some []"
    by (rule startDocument_root)
  show ?thesis
  proof (cases records)
    case (Arr rs)
    with assms init have "eachRecord E (globalId model) ?di sl ar assocs rs (json1, h) = Inr (json, h')"
      by (auto simp: fillDocument_def Let_def split: sum.splits)
    from eachRecord_root [OF this root1] show ?thesis by (simp add: allObj_def)
  next
    case other: Undefined
    with assms init obtain c j1 where
      "prepareOneRecord E (globalId model) ?di sl ar assocs records (json1, h) = Inr (c, j1, h')"
      "json = AList.update ?di [c] j1"
      by (auto simp: fillDocument_def Let_def split: sum.splits)
    with prepareOneRecord_Obj [OF this(1)] show ?thesis by (auto simp: update_conv' allObj_def)
  qed (use assms init in \<open>auto simp: fillDocument_def Let_def prepareOneRecord_def toJSON_def
        update_conv' allObj_def split: sum.splits option.splits prod.splits\<close>)
qed

lemma dedupeEach_root:
  "dedupeEach h di keys json = Inr json' \<Longrightarrow> map_of json' di = map_of json di"
  by (induction keys arbitrary: json)
     (auto simp: update_conv' delete_conv' split: if_splits option.splits sum.splits)

lemma buildResponse_root:
  assumes "buildResponse E model records assocs sl ar h = Inr (doc, h')"
  shows "\<exists>ys. map_of doc (convertModelName E (globalId model) None) = Some ys \<and> allObj ys"
proof -
  from assms obtain json2 h2 where
    fd: "fillDocument E model records assocs sl ar h = Inr (json2, h2)"
    by (auto simp: buildResponse_def Let_def split: sum.splits)
  from fillDocument_root [OF fd] obtain ys where
    ys: "map_of json2 (convertModelName E (globalId model) None) = Some ys" "allObj ys" by blast
  show ?thesis
  proof (cases sl)
    case True
    with assms fd have
      "dedupeEach h2 (convertModelName E (globalId model) None) (map fst json2) json2 = Inr doc"
      by (auto simp: buildResponse_def Let_def split: sum.splits)
    from dedupeEach_root [OF this] ys show ?thesis by simp
  next
    case False
    with assms fd have "doc = json2" by (simp add: buildResponse_def Let_def)
    with ys show ?thesis by simp
  qed
qed

subsection \<open>Runs of the sample application\<close>

lemmas sample_defs =
  sampleEnv_def postModel_def commentModel_def tagModel_def commentsAssoc_def tagsAssoc_def
  nodeModel_def toIdModel_def targetsAssoc_def
  lowerChar_def upperChar_def sampleSingular_def

lemmas run_defs =
  buildResponse_def fillDocument_def startDocument_def prepareOneRecord_def toJSON_def assocStep_def
  collectionBranch_def assocModelIdentifier_def targetKey_def optKey_def
  sideloadCollection_def indexCollection_def linkCollection_def sideloadModel_def
  linkAssociations_def linkRecord_def convertModelName_def reverseModelName_def
  field_def concat_arg_def strict_eq_def isNumber_def isString_def
  show_int_def show_nat.simps Let_def

lemma blogStore_at:
  "blogStore (Suc 0) = Some [(''id'', Num 1), (''title'', Str ''Hello''),
                           (''comments'', Arr [Ref 2, Ref 3]), (''tags'', Arr [])]"
  "blogStore 2 = Some [(''id'', Num 10), (''body'', Str ''first'')]"
  "blogStore 3 = Some [(''id'', Num 11), (''body'', Str ''second'')]"
  "blogStore 4 = Some [(''id'', Num 2), (''title'', Str ''Again''), (''comments'', Arr [Ref 3]),
                       (''tags'', Arr [])]"
  by (simp_all add: blogStore_def)

lemma linkAssociations_blog:
  "linkAssociations sampleEnv (Some commentModel) (Arr [Ref 2, Ref 3]) blogStore
     = Inr ([Ref 2, Ref 3], linkedStore)"
  by (simp add: run_defs sample_defs blogStore_at linkedStore_def)

lemma linkAssociations_tag:
  "linkAssociations sampleEnv (Some tagModel) (Ref 2) blogStore = Inr ([Ref 2], blogStore)"
  by (simp add: run_defs sample_defs)

lemma buildResponse_blog:
  "buildResponse sampleEnv postModel (Ref 1) [commentsAssoc] True None blogStore
     = Inr (blogDocument, linkedStore)"
  by (simp add: run_defs sample_defs blogStore_at linkedStore_def blogDocument_def fun_eq_iff)

lemma buildResponse_blog_off:
  "buildResponse sampleEnv postModel (Ref 1) [commentsAssoc] False None blogStore
     = Inr ([(''posts'',
              [Obj [(''id'', Num 1), (''title'', Str ''Hello''), (''comments'', Arr [Ref 2, Ref 3]),
                    (''tags'', Arr [])]])],
            blogStore)"
  by (simp add: run_defs sample_defs blogStore_at)

section \<open>Properties of the document\<close>

subsection \<open>Removing duplicates\<close>

lemma set_keepFirst: "set (keepFirst f xs) \<subseteq> set xs"
  by (induction f xs rule: keepFirst.induct) auto

lemma distinct_keepFirst: "distinct (map f (keepFirst f xs))"
proof (induction f xs rule: keepFirst.induct)
  case (1 f)
  then show ?case by simp
next
  case (2 f x xs)
  have "f x \<notin> f ` set (keepFirst f (filter (\<lambda>y. f y \<noteq> f x) xs))"
    using set_keepFirst [of f "filter (\<lambda>y. f y \<noteq> f x) xs"] by auto
  with 2 show ?case by simp
qed

lemma keepFirst_Nil: "(keepFirst f xs = []) = (xs = [])"
  by (cases xs) simp_all

lemma uniq_keepFirst_gen:
  "uniq h seen result vs = Inr u \<Longrightarrow>
     u = result @ keepFirst (\<lambda>v. get_prop h v ''id'')
                    (filter (\<lambda>v. get_prop h v ''id'' \<notin> Inr ` set seen) vs)"
proof (induction vs arbitrary: seen result)
  case Nil
  then show ?case by simp
next
  case (Cons v vs)
  from Cons.prems obtain c where c: "get_prop h v ''id'' = Inr c" "\<not> by_identity c"
    by (auto split: sum.splits if_splits)
  show ?case
  proof (cases "c \<in> set seen")
    case True
    with Cons.prems c have "uniq h seen result vs = Inr u" by simp
    from Cons.IH [OF this] True c show ?thesis by simp
  next
    case False
    with Cons.prems c have "uniq h (seen @ [c]) (result @ [v]) vs = Inr u" by simp
    from Cons.IH [OF this] have
      "u = (result @ [v]) @ keepFirst (\<lambda>v. get_prop h v ''id'')
             (filter (\<lambda>v. get_prop h v ''id'' \<notin> Inr ` set (seen @ [c])) vs)" .
    moreover have "filter (\<lambda>v. get_prop h v ''id'' \<notin> Inr ` set (seen @ [c])) vs
        = filter (\<lambda>y. get_prop h y ''id'' \<noteq> get_prop h v ''id'')
            (filter (\<lambda>v. get_prop h v ''id'' \<notin> Inr ` set seen) vs)"
      using c by (auto intro: filter_cong)
    ultimately show ?thesis using False c by auto
  qed
qed

lemma uniq_keepFirst:
  "uniq h [] [] vs = Inr u \<Longrightarrow> u = keepFirst (\<lambda>v. get_prop h v ''id'') vs"
  by (drule uniq_keepFirst_gen) simp

lemma uniq_ids_read:
  "uniq h seen result vs = Inr u \<Longrightarrow> \<forall>v \<in> set vs. \<exists>i. get_prop h v ''id'' = Inr i"
  by (induction vs arbitrary: seen result) (auto split: sum.splits if_splits)

subsection \<open>The keys stay distinct\<close>

lemma sideloadInit_distinct:
  "sideloadInit E as json = Inr json' \<Longrightarrow> distinct (map fst json) \<Longrightarrow> distinct (map fst json')"
  by (induction as arbitrary: json) (auto simp: distinct_update split: if_splits sum.splits)

lemma sideloadCollection_distinct:
  "sideloadCollection E sl ami a (r0, json, h) = Inr (r', json', h')
     \<Longrightarrow> distinct (map fst json) \<Longrightarrow> distinct (map fst json')"
  by (auto simp: sideloadCollection_def distinct_update
           split: if_splits sum.splits bool.splits option.splits)

lemma sideloadModel_distinct:
  "sideloadModel E sl ami a (r0, json, h) = Inr (r', json', h')
     \<Longrightarrow> distinct (map fst json) \<Longrightarrow> distinct (map fst json')"
  by (auto simp: sideloadModel_def distinct_update split: if_splits sum.splits option.splits)

lemma collectionBranch_distinct:
  "collectionBranch E emi di sl ar ami a (r0, links, json, h) = Inr (r', links', json', h')
     \<Longrightarrow> distinct (map fst json) \<Longrightarrow> distinct (map fst json')"
  by (auto simp: collectionBranch_def Let_def split: sum.splits prod.splits
           dest: sideloadCollection_distinct)

lemma assocStep_distinct:
  assumes "assocStep E emi di sl ar a (r0, links, json, h) = Inr (r', links', json', h')"
    and "distinct (map fst json)"
  shows "distinct (map fst json')"
proof -
  from assms(1) obtain ami r4 l4 j4 h4 where
    mid: "(if a_type a = ''collection''
           then collectionBranch E emi di sl ar ami a (r0, links, json, h)
           else Inr (r0, links, json, h)) = Inr (r4, l4, j4, h4)"
    and fin: "sideloadModel E sl ami a (r4, j4, h4) = Inr (r', json', h')"
    by (auto simp: assocStep_def split: sum.splits prod.splits)
  from mid assms(2) have "distinct (map fst j4)"
    by (auto split: if_splits dest: collectionBranch_distinct)
  with sideloadModel_distinct [OF fin] show ?thesis by simp
qed

lemma assocEach_distinct:
  "assocEach E emi di sl ar as (r0, links, json, h) = Inr (r', links', json', h')
     \<Longrightarrow> distinct (map fst json) \<Longrightarrow> distinct (map fst json')"
proof (induction as arbitrary: r0 links json h)
  case Nil
  then show ?case by simp
next
  case (Cons a as)
  from Cons.prems(1) obtain r1 l1 j1 h1 where
    1: "assocStep E emi di sl ar a (r0, links, json, h) = Inr (r1, l1, j1, h1)" and
    2: "assocEach E emi di sl ar as (r1, l1, j1, h1) = Inr (r', links', json', h')"
    by (auto split: sum.splits)
  from assocStep_distinct [OF 1 Cons.prems(2)] Cons.IH [OF 2] show ?case by simp
qed

lemma prepareOneRecord_distinct:
  "prepareOneRecord E emi di sl ar as r (json, h) = Inr (c, json', h')
     \<Longrightarrow> distinct (map fst json) \<Longrightarrow> distinct (map fst json')"
  by (auto simp: prepareOneRecord_def split: sum.splits prod.splits dest: assocEach_distinct)

lemma eachRecord_distinct:
  "eachRecord E emi di sl ar as rs (json, h) = Inr (json', h')
     \<Longrightarrow> distinct (map fst json) \<Longrightarrow> distinct (map fst json')"
proof (induction rs arbitrary: json h)
  case Nil
  then show ?case by simp
next
  case (Cons r rs)
  from Cons.prems(1) obtain cur c j1 h1 where
    1: "prepareOneRecord E emi di sl ar as r (json, h) = Inr (c, j1, h1)" and
    2: "eachRecord E emi di sl ar as rs (AList.update di (cur @ [c]) j1, h1) = Inr (json', h')"
    by (auto split: option.splits sum.splits)
  from prepareOneRecord_distinct [OF 1 Cons.prems(2)]
  have "distinct (map fst (AList.update di (cur @ [c]) j1))" by (simp add: distinct_update)
  with Cons.IH [OF 2] show ?case by simp
qed

lemma fillDocument_distinct:
  assumes "fillDocument E model records assocs sl ar h = Inr (json, h')"
  shows "distinct (map fst json)"
proof -
  let ?di = "convertModelName E (globalId model) None"
  from assms obtain json1 where
    init: "startDocument E ?di assocs sl = Inr json1"
    by (auto simp: fillDocument_def Let_def split: sum.splits)
  then have d1: "distinct (map fst json1)"
    by (auto simp: startDocument_def Let_def split: if_splits dest: sideloadInit_distinct)
  show ?thesis
  proof (cases records)
    case (Arr rs)
    with assms init have "eachRecord E (globalId model) ?di sl ar assocs rs (json1, h) = Inr (json, h')"
      by (auto simp: fillDocument_def Let_def split: sum.splits)
    from eachRecord_distinct [OF this d1] show ?thesis .
  next
    case (Ref a)
    with assms init obtain c j1 where
      "prepareOneRecord E (globalId model) ?di sl ar assocs records (json1, h) = Inr (c, j1, h')"
      "json = AList.update ?di [c] j1"
      by (auto simp: fillDocument_def Let_def split: sum.splits)
    with prepareOneRecord_distinct [OF this(1) d1] show ?thesis by (simp add: distinct_update)
  qed (use assms init in \<open>auto simp: fillDocument_def Let_def prepareOneRecord_def toJSON_def
        split: sum.splits\<close>)
qed

lemma dedupeEach_distinct:
  "dedupeEach h di keys json = Inr json' \<Longrightarrow> distinct (map fst json) \<Longrightarrow> distinct (map fst json')"
  by (induction keys arbitrary: json)
     (auto simp: distinct_update distinct_delete split: if_splits option.splits sum.splits)

subsection \<open>The last pass\<close>

lemma dedupeEach_map_of:
  assumes "dedupeEach h di keys json = Inr json'" "distinct keys"
  shows "map_of json' k =
     (if k \<in> set keys \<and> k \<noteq> di then dedupedBucket h (map_of json k) else map_of json k)"
  using assms
proof (induction keys arbitrary: json)
  case Nil
  then show ?case by simp
next
  case (Cons key keys)
  from Cons.prems(2) have nk: "key \<notin> set keys" and dk: "distinct keys" by simp_all
  show ?case
  proof (cases "key = di")
    case True
    with Cons.prems(1) have "dedupeEach h di keys json = Inr json'" by simp
    from Cons.IH [OF this dk] True show ?thesis by auto
  next
    case False
    with Cons.prems(1) obtain array where arr: "map_of json key = Some array"
      by (auto split: option.splits)
    show ?thesis
    proof (cases "array = []")
      case True
      with Cons.prems(1) False arr have "dedupeEach h di keys (AList.delete key json) = Inr json'"
        by simp
      from Cons.IH [OF this dk] nk False arr True show ?thesis
        by (auto simp: delete_conv' dedupedBucket_def)
    next
      case ne: False
      with Cons.prems(1) False arr obtain u where u: "uniq h [] [] array = Inr u"
        and r: "dedupeEach h di keys (AList.update key u json) = Inr json'"
        by (auto split: sum.splits)
      from Cons.IH [OF r dk] nk False arr ne uniq_keepFirst [OF u] show ?thesis
        by (auto simp: update_conv' dedupedBucket_def)
    qed
  qed
qed

lemma dedupeEach_ids_read:
  assumes "dedupeEach h di keys json = Inr json'" "distinct keys"
    "k \<in> set keys" "k \<noteq> di" "map_of json k = Some bucket"
  shows "\<forall>v \<in> set bucket. \<exists>i. get_prop h v ''id'' = Inr i"
  using assms
proof (induction keys arbitrary: json)
  case Nil
  then show ?case by simp
next
  case (Cons key keys)
  from Cons.prems(2) have nk: "key \<notin> set keys" and dk: "distinct keys" by simp_all
  show ?case
  proof (cases "key = k")
    case True
    show ?thesis
    proof (cases "bucket = []")
      case True
      then show ?thesis by simp
    next
      case False
      with Cons.prems True obtain u where "uniq h [] [] bucket = Inr u"
        by (auto split: sum.splits if_splits)
      from uniq_ids_read [OF this] show ?thesis .
    qed
  next
    case False
    with Cons.prems(3) have kin: "k \<in> set keys" by simp
    from Cons.prems(1) False consider
        "dedupeEach h di keys json = Inr json'"
      | "dedupeEach h di keys (AList.delete key json) = Inr json'"
      | u where "dedupeEach h di keys (AList.update key u json) = Inr json'"
      by (auto split: if_splits option.splits sum.splits)
    then show ?thesis
    proof cases
      case 1
      from Cons.IH [OF 1 dk kin Cons.prems(4,5)] show ?thesis .
    next
      case 2
      from False Cons.prems(5) have "map_of (AList.delete key json) k = Some bucket"
        by (simp add: delete_conv')
      from Cons.IH [OF 2 dk kin Cons.prems(4) this] show ?thesis .
    next
      case 3
      from False Cons.prems(5) have "map_of (AList.update key u json) k = Some bucket"
        by (simp add: update_conv')
      from Cons.IH [OF 3 dk kin Cons.prems(4) this] show ?thesis .
    qed
  qed
qed


lemma links_frame_ids:
  "links_frame h h' \<Longrightarrow> (\<lambda>v. get_prop h' v ''id'') = (\<lambda>v. get_prop h v ''id'')"
  by (rule ext) (simp add: links_frame_get_prop)

subsection \<open>A run with two posts\<close>

lemma fillDocument_batch:
  "fillDocument sampleEnv postModel (Arr [Ref 1, Ref 4]) [commentsAssoc, tagsAssoc] True None
     blogStore = Inr (batchFilled, linkedStore)"
  by (simp add: run_defs sample_defs blogStore_at linkedStore_def batchFilled_def fun_eq_iff)

lemma buildResponse_batch:
  "buildResponse sampleEnv postModel (Arr [Ref 1, Ref 4]) [commentsAssoc, tagsAssoc] True None
     blogStore = Inr (batchDocument, linkedStore)"
  by (simp add: run_defs sample_defs blogStore_at linkedStore_def batchDocument_def fun_eq_iff)

subsection \<open>One record or a list\<close>




lemma buildResponse_fill_root:
  assumes "buildResponse E model records assocs sl ar h = Inr (doc, h')"
  shows "\<exists>json h2. fillDocument E model records assocs sl ar h = Inr (json, h2)
     \<and> map_of doc (convertModelName E (globalId model) None)
         = map_of json (convertModelName E (globalId model) None)"
proof -
  from assms obtain json2 h2 where
    fd: "fillDocument E model records assocs sl ar h = Inr (json2, h2)"
    by (auto simp: buildResponse_def Let_def split: sum.splits)
  show ?thesis
  proof (cases sl)
    case True
    with assms fd have
      "dedupeEach h2 (convertModelName E (globalId model) None) (map fst json2) json2 = Inr doc"
      by (auto simp: buildResponse_def Let_def split: sum.splits)
    from dedupeEach_root [OF this] fd show ?thesis by simp
  next
    case False
    with assms fd have "doc = json2" by (simp add: buildResponse_def Let_def)
    with fd show ?thesis by simp
  qed
qed



subsection \<open>A collection with nothing in it\<close>

lemma sideloadCollection_empty:
  "emptyCollection (field r0 (a_alias a)) \<Longrightarrow>
     sideloadCollection E sl ami a (r0, json, h) = Inr (r0, json, h)"
  by (auto simp: sideloadCollection_def emptyCollection_def)

lemma assocStep_empty:
  assumes "a_type a = ''collection''" "a_include a = ''record''"
    and "emptyCollection (field r0 (a_alias a))"
    and "assocStep E emi di sl ar a (r0, links, json, h) = Inr st'"
  shows "st' = (r0, links, json, h)"
proof -
  from assms(4) obtain ami where ami: "assocModelIdentifier E a = Inr ami"
    by (auto simp: assocStep_def split: sum.splits)
  from assms(4) ami assms(1) obtain s where s: "singular E (a_via a) = Inr s"
    by (auto simp: assocStep_def collectionBranch_def split: sum.splits)
  from assms(1,2) s have cb: "collectionBranch E emi di sl ar ami a (r0, links, json, h)
      = Inr (r0, links, json, h)"
    by (simp add: collectionBranch_def Let_def sideloadCollection_empty [OF assms(3)]
          indexCollection_def linkCollection_def)
  from assms(1) have sm: "sideloadModel E sl ami a (r0, json, h) = Inr (r0, json, h)"
    by (simp add: sideloadModel_def)
  from assms(4) ami assms(1) cb sm show ?thesis by (simp add: assocStep_def)
qed

lemma prepareOneRecord_empty:
  assumes "a_type a = ''collection''" "a_include a = ''record''"
    and "h addr = Some r0" "emptyCollection (field r0 (a_alias a))"
    and "prepareOneRecord E emi di sl ar [a] (Ref addr) (json, h) = Inr res"
  shows "res = (Obj r0, json, h)"
proof -
  from assms(3,5) obtain st' where
    st: "assocStep E emi di sl ar a (r0, [], json, h) = Inr st'"
    by (auto simp: prepareOneRecord_def toJSON_def split: sum.splits)
  from assocStep_empty [OF assms(1,2,4) st] have "st' = (r0, [], json, h)" .
  with assms(3,5) st show ?thesis by (simp add: prepareOneRecord_def toJSON_def)
qed

lemma startDocument_one:
  assumes "startDocument E di [a] True = Inr json0" "a_include a = ''record''"
  shows "\<exists>ami. assocModelIdentifier E a = Inr ami
           \<and> json0 = (if a_alias a = di \<or> ami = di then [(di, [])] else [(di, []), (ami, [])])"
proof (cases "assocModelIdentifier E a")
  case (Inl e)
  with assms show ?thesis by (simp add: startDocument_def)
next
  case (Inr ami)
  with assms have "json0 = (if a_alias a = di then [(di, [])] else AList.update ami [] [(di, [])])"
    by (auto simp: startDocument_def Let_def split: if_splits)
  then have "json0 = (if a_alias a = di \<or> ami = di then [(di, [])] else [(di, []), (ami, [])])"
    by (cases "ami = di") auto
  with Inr show ?thesis by blast
qed

lemma buildResponse_no_tags:
  "buildResponse sampleEnv postModel (Ref 1) [tagsAssoc] True None blogStore
     = Inr ([(''posts'',
              [Obj [(''id'', Num 1), (''title'', Str ''Hello''), (''comments'', Arr [Ref 2, Ref 3]),
                    (''tags'', Arr [])]])], blogStore)"
  by (simp add: run_defs sample_defs blogStore_at)

section \<open>Properties of the records\<close>

subsection \<open>Fields the loop body leaves alone\<close>

lemma sideloadCollection_fields:
  "sideloadCollection E sl ami a (r0, json, h) = Inr (r', json', h') \<Longrightarrow> k \<noteq> a_alias a
     \<Longrightarrow> map_of r' k = map_of r0 k"
  by (auto simp: sideloadCollection_def update_conv'
           split: if_splits sum.splits bool.splits option.splits)

lemma indexCollection_fields:
  "indexCollection ar v a h r0 = Inr r' \<Longrightarrow> k \<noteq> a_alias a \<Longrightarrow> map_of r' k = map_of r0 k"
  by (auto simp: indexCollection_def update_conv' split: if_splits sum.splits option.splits)

lemma linkCollection_fields:
  "linkCollection E di a (r0, l0) = (r', l') \<Longrightarrow> k \<noteq> a_alias a
     \<Longrightarrow> map_of r' k = map_of r0 k \<and> map_of l' k = map_of l0 k"
  by (auto simp: linkCollection_def update_conv' delete_conv' split: if_splits)

lemma sideloadModel_fields:
  "sideloadModel E sl ami a (r0, json, h) = Inr (r', json', h') \<Longrightarrow> k \<noteq> a_alias a
     \<Longrightarrow> map_of r' k = map_of r0 k"
  by (auto simp: sideloadModel_def update_conv' split: if_splits sum.splits option.splits)

lemma collectionBranch_fields:
  assumes "collectionBranch E emi di sl ar ami a (r0, l0, json, h) = Inr (r', l', json', h')"
    and "k \<noteq> a_alias a"
  shows "map_of r' k = map_of r0 k \<and> map_of l' k = map_of l0 k"
proof -
  from assms(1) obtain v r1 j1 h1 r2 where
    1: "sideloadCollection E sl ami a (r0, json, h) = Inr (r1, j1, h1)" and
    2: "indexCollection ar v a h1 r1 = Inr r2" and
    3: "linkCollection E di a (r2, l0) = (r', l')"
    by (auto simp: collectionBranch_def Let_def split: sum.splits prod.splits)
  from sideloadCollection_fields [OF 1 assms(2)] indexCollection_fields [OF 2 assms(2)]
    linkCollection_fields [OF 3 assms(2)]
  show ?thesis by simp
qed

lemma assocStep_fields:
  assumes "assocStep E emi di sl ar a (r0, l0, json, h) = Inr (r', l', json', h')"
    and "k \<noteq> a_alias a"
  shows "map_of r' k = map_of r0 k \<and> map_of l' k = map_of l0 k"
proof -
  from assms(1) obtain ami r4 j4 h4 where
    mid: "(if a_type a = ''collection''
           then collectionBranch E emi di sl ar ami a (r0, l0, json, h)
           else Inr (r0, l0, json, h)) = Inr (r4, l', j4, h4)"
    and fin: "sideloadModel E sl ami a (r4, j4, h4) = Inr (r', json', h')"
    by (auto simp: assocStep_def split: sum.splits prod.splits)
  from mid assms(2) have "map_of r4 k = map_of r0 k \<and> map_of l' k = map_of l0 k"
    by (auto split: if_splits dest: collectionBranch_fields)
  with sideloadModel_fields [OF fin assms(2)] show ?thesis by simp
qed

lemma assocEach_fields:
  "assocEach E emi di sl ar as (r0, l0, json, h) = Inr (r', l', json', h')
     \<Longrightarrow> k \<notin> a_alias ` set as
     \<Longrightarrow> map_of r' k = map_of r0 k \<and> map_of l' k = map_of l0 k"
proof (induction as arbitrary: r0 l0 json h)
  case Nil
  then show ?case by simp
next
  case (Cons a as)
  from Cons.prems(1) obtain r1 l1 j1 h1 where
    1: "assocStep E emi di sl ar a (r0, l0, json, h) = Inr (r1, l1, j1, h1)" and
    2: "assocEach E emi di sl ar as (r1, l1, j1, h1) = Inr (r', l', json', h')"
    by (auto split: sum.splits)
  from Cons.prems(2) have "k \<noteq> a_alias a" "k \<notin> a_alias ` set as" by auto
  with assocStep_fields [OF 1] Cons.IH [OF 2] show ?case by simp
qed

lemma assocEach_append:
  "assocEach E emi di sl ar (xs @ ys) st =
     (case assocEach E emi di sl ar xs st of
        Inl e \<Rightarrow> Inl e
      | Inr st' \<Rightarrow> assocEach E emi di sl ar ys st')"
  by (induction xs arbitrary: st) (auto split: sum.splits)

lemma assocEach_split:
  assumes "assocEach E emi di sl ar (pre @ a # post) (r0, l0, json, h) = Inr (r', l', json', h')"
  obtains r1 l1 j1 h1 r2 l2 j2 h2 where
    "assocEach E emi di sl ar pre (r0, l0, json, h) = Inr (r1, l1, j1, h1)"
    "assocStep E emi di sl ar a (r1, l1, j1, h1) = Inr (r2, l2, j2, h2)"
    "assocEach E emi di sl ar post (r2, l2, j2, h2) = Inr (r', l', json', h')"
proof -
  from assms obtain st1 where 1: "assocEach E emi di sl ar pre (r0, l0, json, h) = Inr st1"
    and rest: "assocEach E emi di sl ar (a # post) st1 = Inr (r', l', json', h')"
    by (auto simp: assocEach_append split: sum.splits)
  from rest obtain st2 where 2: "assocStep E emi di sl ar a st1 = Inr st2"
    and 3: "assocEach E emi di sl ar post st2 = Inr (r', l', json', h')"
    by (auto split: sum.splits)
  obtain r1 l1 j1 h1 where st1: "st1 = (r1, l1, j1, h1)" by (cases st1)
  obtain r2 l2 j2 h2 where st2: "st2 = (r2, l2, j2, h2)" by (cases st2)
  from 1 2 3 st1 st2 that show thesis by simp
qed

subsection \<open>The hyperlink policy\<close>

lemma assocStep_link:
  assumes "assocStep E emi di sl ar a (r0, l0, json, h) = Inr (r', l', json', h')"
    and "a_type a = ''collection''" "a_include a = ''link''"
  shows "map_of r' (a_alias a) = None
       \<and> map_of l' (a_alias a) = Some (linkUrl E di (field r0 ''id'') (a_alias a))"
proof -
  from assms(1,2) obtain ami r4 j4 h4 where
    cb: "collectionBranch E emi di sl ar ami a (r0, l0, json, h) = Inr (r4, l', j4, h4)"
    and fin: "sideloadModel E sl ami a (r4, j4, h4) = Inr (r', json', h')"
    by (auto simp: assocStep_def split: sum.splits prod.splits)
  from cb assms(3) have "r4 = AList.delete (a_alias a) r0"
    "l' = AList.update (a_alias a) (linkUrl E di (field r0 ''id'') (a_alias a)) l0"
    by (auto simp: collectionBranch_def Let_def sideloadCollection_def indexCollection_def
          linkCollection_def linkUrl_def split: sum.splits)
  moreover from fin assms(2) have "r' = r4" by (simp add: sideloadModel_def)
  ultimately show ?thesis by (simp add: update_conv' delete_conv')
qed


lemma prepareOneRecord_link:
  assumes run: "prepareOneRecord E emi di sl ar (pre @ a # post) r (json, h) = Inr (c, json', h')"
    and a: "a_type a = ''collection''" "a_include a = ''link''"
    and others: "\<forall>b \<in> set pre \<union> set post. a_alias b \<noteq> a_alias a"
    and ids: "\<forall>b \<in> set pre. a_alias b \<noteq> ''id''"
    and nl: "a_alias a \<noteq> ''links''"
  shows "\<exists>addr fs cl lk. r = Ref addr \<and> h addr = Some fs \<and> c = Obj cl
           \<and> map_of cl (a_alias a) = None \<and> map_of cl ''links'' = Some (Obj lk)
           \<and> map_of lk (a_alias a) = Some (linkUrl E di (field fs ''id'') (a_alias a))"
proof -
  from run obtain fs r' links where fs: "toJSON h r = Inr fs"
    and ae: "assocEach E emi di sl ar (pre @ a # post) (fs, [], json, h) = Inr (r', links, json', h')"
    and c: "c = Obj (if length links > 0 then AList.update ''links'' (Obj links) r' else r')"
    by (auto simp: prepareOneRecord_def split: sum.splits prod.splits)
  from fs obtain addr where r: "r = Ref addr" "h addr = Some fs"
    by (auto simp: toJSON_def split: jsval.splits option.splits)
  from ae obtain r1 l1 j1 h1 r2 l2 j2 h2 where
    1: "assocEach E emi di sl ar pre (fs, [], json, h) = Inr (r1, l1, j1, h1)" and
    2: "assocStep E emi di sl ar a (r1, l1, j1, h1) = Inr (r2, l2, j2, h2)" and
    3: "assocEach E emi di sl ar post (r2, l2, j2, h2) = Inr (r', links, json', h')"
    by (rule assocEach_split)
  from ids have "''id'' \<notin> a_alias ` set pre" by auto
  from assocEach_fields [OF 1 this] have "field r1 ''id'' = field fs ''id''"
    by (simp add: field_def)
  with assocStep_link [OF 2 a] have
    s2: "map_of r2 (a_alias a) = None"
        "map_of l2 (a_alias a) = Some (linkUrl E di (field fs ''id'') (a_alias a))" by simp_all
  from others have "a_alias a \<notin> a_alias ` set post" by auto
  from assocEach_fields [OF 3 this] s2 have
    s3: "map_of r' (a_alias a) = None"
        "map_of links (a_alias a) = Some (linkUrl E di (field fs ''id'') (a_alias a))" by simp_all
  from s3(2) have "links \<noteq> []" by auto
  with c have "c = Obj (AList.update ''links'' (Obj links) r')" by simp
  moreover from s3(1) nl have "map_of (AList.update ''links'' (Obj links) r') (a_alias a) = None"
    by (simp add: update_conv')
  moreover have "map_of (AList.update ''links'' (Obj links) r') ''links'' = Some (Obj links)"
    by (simp add: update_conv')
  ultimately show ?thesis using r s3(2) by blast
qed

subsection \<open>From the records to the root entry\<close>

lemma eachRecord_clones:
  assumes step: "\<And>r json h1 c json' h1'. links_frame h h1 \<Longrightarrow> (\<not> sl \<longrightarrow> h1 = h) \<Longrightarrow>
       prepareOneRecord E emi di sl ar assocs r (json, h1) = Inr (c, json', h1') \<Longrightarrow> P r c"
    and run: "eachRecord E emi di sl ar assocs rs (json, h1) = Inr (json', h')"
    and fr: "links_frame h h1" "\<not> sl \<longrightarrow> h1 = h" and root: "map_of json di = Some xs"
  shows "\<exists>cs. map_of json' di = Some (xs @ cs) \<and> list_all2 P rs cs"
  using run fr root
proof (induction rs arbitrary: json h1 xs)
  case Nil
  then show ?case by simp
next
  case (Cons r rs)
  from Cons.prems(1,4) obtain c j1 h2 where
    1: "prepareOneRecord E emi di sl ar assocs r (json, h1) = Inr (c, j1, h2)" and
    2: "eachRecord E emi di sl ar assocs rs (AList.update di (xs @ [c]) j1, h2) = Inr (json', h')"
    by (auto split: sum.splits)
  from prepareOneRecord_frame [OF 1] Cons.prems(2) have fr2: "links_frame h h2"
    by (blast intro: links_frame_trans)
  have off2: "\<not> sl \<longrightarrow> h2 = h"
  proof
    assume "\<not> sl"
    with 1 Cons.prems(3) have "prepareOneRecord E emi di False ar assocs r (json, h) = Inr (c, j1, h2)"
      by simp
    from prepareOneRecord_off [OF this] show "h2 = h" by simp
  qed
  have "map_of (AList.update di (xs @ [c]) j1) di = Some (xs @ [c])" by (simp add: update_conv')
  from Cons.IH [OF 2 fr2 off2 this] obtain cs where
    "map_of json' di = Some ((xs @ [c]) @ cs)" "list_all2 P rs cs" by blast
  with step [OF Cons.prems(2,3) 1] have
    "map_of json' di = Some (xs @ c # cs) \<and> list_all2 P (r # rs) (c # cs)" by simp
  then show ?case by blast
qed

lemma buildResponse_clones:
  assumes step: "\<And>r json h1 c json' h1'. links_frame h h1 \<Longrightarrow> (\<not> sl \<longrightarrow> h1 = h) \<Longrightarrow>
       prepareOneRecord E (globalId model) (convertModelName E (globalId model) None) sl ar assocs r
         (json, h1) = Inr (c, json', h1') \<Longrightarrow> P r c"
    and run: "buildResponse E model records assocs sl ar h = Inr (doc, h')"
  shows "\<exists>cs. map_of doc (convertModelName E (globalId model) None) = Some cs
           \<and> list_all2 P (case records of Arr rs \<Rightarrow> rs | _ \<Rightarrow> [records]) cs"
proof -
  let ?di = "convertModelName E (globalId model) None"
  from buildResponse_fill_root [OF run] obtain json h2 where
    fd: "fillDocument E model records assocs sl ar h = Inr (json, h2)" and
    root: "map_of doc ?di = map_of json ?di" by blast
  from fd obtain json0 where sd: "startDocument E ?di assocs sl = Inr json0"
    by (auto simp: fillDocument_def Let_def split: sum.splits)
  note r0 = startDocument_root [OF sd]
  have same: "\<not> sl \<longrightarrow> h = h" by simp
  show ?thesis
  proof (cases "\<exists>rs. records = Arr rs")
    case True
    then obtain rs where rs: "records = Arr rs" by blast
    with fd sd have "eachRecord E (globalId model) ?di sl ar assocs rs (json0, h) = Inr (json, h2)"
      by (simp add: fillDocument_def Let_def)
    from eachRecord_clones [where P = P, OF step this links_frame_refl same r0] rs root
    show ?thesis by simp
  next
    case False
    with fd sd obtain c j1 where
      p: "prepareOneRecord E (globalId model) ?di sl ar assocs records (json0, h) = Inr (c, j1, h2)"
      and j: "json = AList.update ?di [c] j1"
      by (cases records) (auto simp: fillDocument_def Let_def split: sum.splits)
    from step [OF links_frame_refl same p] have "P records c" .
    moreover from False have "(case records of Arr rs \<Rightarrow> rs | _ \<Rightarrow> [records]) = [records]"
      by (cases records) auto
    ultimately show ?thesis using root j by (simp add: update_conv')
  qed
qed

lemma buildResponse_linked_posts:
  "buildResponse sampleEnv postModel (Arr [Ref 1, Ref 4]) [commentsLinkAssoc, tagsAssoc] True None
     blogStore = Inr (linkedPosts, blogStore)"
  by (simp add: run_defs sample_defs commentsLinkAssoc_def blogStore_at linkedPosts_def)

subsection \<open>The index policy\<close>



lemma assocStep_links_same:
  assumes "assocStep E emi di sl ar a (r0, l0, json, h) = Inr (r', l', json', h')"
    and "\<not> (a_type a = ''collection'' \<and> a_include a = ''link'')"
  shows "l' = l0"
proof -
  from assms(1) obtain ami r4 j4 h4 where
    mid: "(if a_type a = ''collection''
           then collectionBranch E emi di sl ar ami a (r0, l0, json, h)
           else Inr (r0, l0, json, h)) = Inr (r4, l', j4, h4)"
    by (auto simp: assocStep_def split: sum.splits prod.splits)
  with assms(2) show ?thesis
    by (auto simp: collectionBranch_def Let_def linkCollection_def
             split: if_splits sum.splits prod.splits)
qed






subsection \<open>Records linked twice\<close>

lemma linkAssociations_linked:
  assumes "linkAssociations E (Some m) (Arr rs) h = Inr (out, h')"
    and "hasCollection (associations m)" "Ref x \<in> set rs"
  shows "\<exists>f f'. h x = Some f \<and> h' x = Some f'
           \<and> linked E (convertModelName E (identity m) None) (associations m) f f'"
proof -
  from assms(1) have "linkMap E (convertModelName E (identity m) None) (associations m) h rs = Inr h'"
    by (auto simp: linkAssociations_def Let_def split: sum.splits)
  from linkMap_char [OF this assms(2), of x] assms(3) show ?thesis by simp
qed

lemma linkAssociations_unlinked:
  assumes "linkAssociations E (Some m) recs h = Inr (out, h')"
    and "\<not> hasCollection (associations m)"
  shows "h' = h"
  using assms by (auto simp: linkAssociations_def Let_def linkMap_unchanged split: sum.splits)

section \<open>Properties of the names\<close>

text \<open>
  The key of an identity, turned back into an identity: what the two functions compute
  between them when no hook is configured. Whether this is the singular of the lower-cased
  camel case of the identity itself depends on \<^verbatim>\<open>lodash\<close> and \<^verbatim>\<open>pluralize\<close> alone.
\<close>

lemma reverseModelName_convertModelName:
  assumes "cfg_convertModelName E = None" "cfg_reverseModelName E = None"
  shows "reverseModelName E (convertModelName E m None) None
           = singular E (Some (toLowerCase E (camelCase E (plural E (kebabCase E m)))))"
  using assms by (simp add: reverseModelName_def convertModelName_def)

section \<open>Objects the call writes to\<close>

text \<open>
  Which objects \<^verbatim>\<open>buildResponse\<close> writes to, and what: only records that a field of a root
  record holds under the alias of an association with the policy \<^verbatim>\<open>"record"\<close>, when no two
  descriptors share an alias, and only their \<^verbatim>\<open>links\<close> field.
\<close>

subsection \<open>Stores that differ in \<^verbatim>\<open>links\<close> fields of given objects\<close>

lemma links_only_refl [simp]: "links_only S h h"
  by (simp add: links_only_def)





lemma held_Ref [simp]: "held (Ref a) = {a}"
  by (auto simp: held_def concat_arg_def)

lemma held_Arr [simp]: "held (Arr xs) = {x. Ref x \<in> set xs}"
  by (simp add: held_def concat_arg_def)

lemma held_Obj [simp]: "held (Obj fs) = {}"
  by (simp add: held_def concat_arg_def)

subsection \<open>What \<^verbatim>\<open>linkAssociations\<close> writes to\<close>





subsection \<open>What one association writes to\<close>










subsection \<open>What one record writes to\<close>






subsection \<open>What the call writes to\<close>












section \<open>A record built after another\<close>

text \<open>
  A record that is built after another is built from a store in which \<^verbatim>\<open>links\<close> fields may
  have been written. When the record itself and the rows of the join index are as they
  were, the loop body takes the same steps and builds the same clone as from the store of
  the call.
\<close>

subsection \<open>Reads that do not depend on \<^verbatim>\<open>links\<close> fields\<close>







subsection \<open>The same writes from stores that are alike\<close>





subsection \<open>Reading the join index\<close>




subsection \<open>The same steps from states that are alike\<close>










subsection \<open>The keys of the document stay\<close>




lemma same_keys_refl [simp]: "same_keys a a"
  by (simp add: same_keys_def)





subsection \<open>The second record of a batch, built alone\<close>


subsection \<open>More runs of the sample application\<close>





section \<open>Naming\<close>

text \<open>
  C6. Without a hook, \<^verbatim>\<open>convertModelName\<close> kebab-cases the identity and pluralises the result
  when its second argument is true or left out, and returns the kebab-cased identity when
  it is false. With \<^verbatim>\<open>_.kebabCase("blogPost") = "blog-post"\<close> and
  \<^verbatim>\<open>pluralize("blog-post") = "blog-posts"\<close>, the key of \<^verbatim>\<open>"blogPost"\<close> is \<^verbatim>\<open>"blog-posts"\<close>, and
  \<^verbatim>\<open>"blog-post"\<close> when the plural is switched off.
\<close>

theorem convertModelName_kebab_then_plural:
  assumes "cfg_convertModelName E = None"
    and "kebabCase E ''blogPost'' = ''blog-post''"
    and "plural E ''blog-post'' = ''blog-posts''"
  shows "convertModelName E m None = plural E (kebabCase E m)
       \<and> convertModelName E m (Some True) = plural E (kebabCase E m)
       \<and> convertModelName E m (Some False) = kebabCase E m
       \<and> convertModelName E ''blogPost'' None = ''blog-posts''
       \<and> convertModelName E ''blogPost'' (Some False) = ''blog-post''"
  using assms by (simp add: convertModelName_def)

theorem convertModelName_kebab_then_plural_witness:
  "cfg_convertModelName sampleEnv = None
   \<and> kebabCase sampleEnv ''blogPost'' = ''blog-post''
   \<and> plural sampleEnv ''blog-post'' = ''blog-posts''
   \<and> convertModelName sampleEnv ''blogPost'' None = ''blog-posts''
   \<and> convertModelName sampleEnv ''blogPost'' (Some False) = ''blog-post''"
  using convertModelName_kebab_then_plural [of sampleEnv "''blogPost''"]
  by (simp add: sampleEnv_def lowerChar_def)

section \<open>Hyperlinks\<close>

text \<open>
  C7. \<^verbatim>\<open>linkAssociations\<close> returns a sequence: the records it was given, or the one record in
  a list. When the model has no association of type \<^verbatim>\<open>"collection"\<close> no hyperlink is
  generated and no record is touched. Otherwise every record of the sequence gets a
  \<^verbatim>\<open>links\<close> field that maps exactly the aliases of the collection associations, each to
  \<^verbatim>\<open>prefix/pluralised-model-key/record-id/alias\<close>; objects outside the sequence are left as
  they were.
\<close>

theorem linkAssociations_spec:
  assumes "linkAssociations E (Some m) records h = Inr (out, h')"
  shows "out = (case records of Arr rs \<Rightarrow> rs | _ \<Rightarrow> [records])
       \<and> (\<not> hasCollection (associations m) \<longrightarrow> h' = h)
       \<and> (hasCollection (associations m) \<longrightarrow>
            (\<forall>a. Ref a \<in> set out \<longrightarrow>
               (\<exists>fs links. h a = Some fs \<and> h' a = Some (AList.update ''links'' (Obj links) fs) \<and>
                  (\<forall>k. map_of links k =
                     (if k \<in> collectionAliases (associations m)
                      then Some (linkUrl E (convertModelName E (identity m) None) (field fs ''id'') k)
                      else None)))))
       \<and> (\<forall>a. Ref a \<notin> set out \<longrightarrow> h' a = h a)"
proof -
  let ?rs = "case records of Arr rs \<Rightarrow> rs | _ \<Rightarrow> [records]"
  let ?mp = "convertModelName E (identity m) None"
  from assms have out: "out = ?rs" and lm: "linkMap E ?mp (associations m) h ?rs = Inr h'"
    by (auto simp: linkAssociations_def Let_def split: sum.splits)
  show ?thesis
  proof (cases "hasCollection (associations m)")
    case False
    with lm have "h' = h" by (simp add: linkMap_unchanged)
    with out False show ?thesis by simp
  next
    case True
    have "\<exists>fs links. h a = Some fs \<and> h' a = Some (AList.update ''links'' (Obj links) fs) \<and>
            (\<forall>k. map_of links k =
               (if k \<in> collectionAliases (associations m)
                then Some (linkUrl E ?mp (field fs ''id'') k) else None))"
      if "Ref a \<in> set out" for a
    proof -
      from linkMap_char [OF lm True, of a] that out obtain fs fs'
        where "h a = Some fs" "h' a = Some fs'" "linked E ?mp (associations m) fs fs'" by auto
      then show ?thesis unfolding linked_def by blast
    qed
    moreover have "h' a = h a" if "Ref a \<notin> set out" for a
      using linkMap_char [OF lm True, of a] that out by simp
    ultimately show ?thesis using out True by blast
  qed
qed

theorem linkAssociations_spec_witness:
  "linkAssociations sampleEnv (Some commentModel) (Arr [Ref 2, Ref 3]) blogStore
     = Inr ([Ref 2, Ref 3], linkedStore)
   \<and> hasCollection (associations commentModel)
   \<and> (\<exists>fs links. blogStore 2 = Some fs
         \<and> linkedStore 2 = Some (AList.update ''links'' (Obj links) fs)
         \<and> map_of links ''replies'' = Some (Str ''/api/comments/10/replies''))
   \<and> linkedStore 1 = blogStore 1
   \<and> \<not> hasCollection (associations tagModel)
   \<and> (\<exists>out h'. linkAssociations sampleEnv (Some tagModel) (Ref 2) blogStore = Inr (out, h')
         \<and> out = [Ref 2] \<and> h' = blogStore)"
proof -
  have nocol: "\<not> hasCollection (associations tagModel)"
    by (simp add: hasCollection_def tagModel_def)
  from linkAssociations_spec [OF linkAssociations_tag] nocol linkAssociations_tag
  have single: "\<exists>out h'. linkAssociations sampleEnv (Some tagModel) (Ref 2) blogStore = Inr (out, h')
         \<and> out = [Ref 2] \<and> h' = blogStore"
    by blast
  note run = linkAssociations_blog
  have col: "hasCollection (associations commentModel)"
    by (simp add: hasCollection_def commentModel_def)
  from linkAssociations_spec [OF run] col
  obtain fs links where fs: "blogStore 2 = Some fs"
      "linkedStore 2 = Some (AList.update ''links'' (Obj links) fs)"
      "\<forall>k. map_of links k =
         (if k \<in> collectionAliases (associations commentModel)
          then Some (linkUrl sampleEnv (convertModelName sampleEnv (identity commentModel) None)
                       (field fs ''id'') k)
          else None)"
    by auto
  from fs(1) have "fs = [(''id'', Num 10), (''body'', Str ''first'')]" by (simp add: blogStore_at)
  with fs(3) have "map_of links ''replies'' = Some (Str ''/api/comments/10/replies'')"
    by (simp add: collectionAliases_def linkUrl_def run_defs sample_defs)
  moreover from linkAssociations_spec [OF run] have "linkedStore 1 = blogStore 1" by simp
  ultimately show ?thesis using run col fs(1,2) nocol single by blast
qed

section \<open>What the call changes\<close>




section \<open>Sideload buckets\<close>

text \<open>
  C2. When \<^verbatim>\<open>buildResponse\<close> returns with sideloading on, every key of the document other
  than the root key holds a non-empty bucket whose entries have pairwise different
  identifiers; and the bucket is what keeping the first entry of every identifier makes of
  the bucket as it stood after the records were processed, a bucket that stood empty being
  removed.
\<close>

theorem sideload_buckets_deduplicated:
  assumes "buildResponse E model records assocs True ar h = Inr (doc, h')"
  shows "(\<forall>(key, bucket) \<in> set doc. key \<noteq> convertModelName E (globalId model) None \<longrightarrow>
            bucket \<noteq> [] \<and> distinct (map (\<lambda>v. get_prop h' v ''id'') bucket)
            \<and> (\<forall>v \<in> set bucket. \<exists>i. get_prop h' v ''id'' = Inr i))
       \<and> (\<exists>json h2. fillDocument E model records assocs True ar h = Inr (json, h2)
            \<and> (\<forall>key. key \<noteq> convertModelName E (globalId model) None \<longrightarrow>
                  map_of doc key = dedupedBucket h' (map_of json key)))"
proof -
  let ?di = "convertModelName E (globalId model) None"
  from assms obtain json2 h2 where
    fd: "fillDocument E model records assocs True ar h = Inr (json2, h2)" and
    dd: "dedupeEach h2 ?di (map fst json2) json2 = Inr doc" and
    rl: "relinkEach E ?di doc h2 = Inr h'"
    by (auto simp: buildResponse_def Let_def split: sum.splits)
  note d2 = fillDocument_distinct [OF fd]
  note d3 = dedupeEach_distinct [OF dd d2]
  from relinkEach_frame [OF rl] have ids:
    "(\<lambda>v. get_prop h' v ''id'') = (\<lambda>v. get_prop h2 v ''id'')" by (rule links_frame_ids)
  have db: "dedupedBucket h' = dedupedBucket h2"
    unfolding dedupedBucket_def ids ..
  have char: "map_of doc key = dedupedBucket h' (map_of json2 key)" if "key \<noteq> ?di" for key
  proof (cases "key \<in> set (map fst json2)")
    case True
    with dedupeEach_map_of [OF dd d2, of key] that db show ?thesis by simp
  next
    case False
    then have "map_of json2 key = None" by (simp add: map_of_eq_None_iff)
    with dedupeEach_map_of [OF dd d2, of key] False show ?thesis
      by (simp add: dedupedBucket_def)
  qed
  have bucket: "bucket \<noteq> [] \<and> distinct (map (\<lambda>v. get_prop h' v ''id'') bucket)
      \<and> (\<forall>v \<in> set bucket. \<exists>i. get_prop h' v ''id'' = Inr i)"
    if "(key, bucket) \<in> set doc" "key \<noteq> ?di" for key bucket
  proof -
    from that(1) d3 have "map_of doc key = Some bucket" by simp
    with char [OF that(2)] obtain b where b: "map_of json2 key = Some b" "b \<noteq> []"
      "bucket = keepFirst (\<lambda>v. get_prop h' v ''id'') b"
      by (auto simp: dedupedBucket_def split: option.splits if_splits)
    from b(1) have "key \<in> set (map fst json2)" by (auto dest: map_of_SomeD intro: rev_image_eqI)
    from dedupeEach_ids_read [OF dd d2 this that(2) b(1)] ids
    have "\<forall>v \<in> set b. \<exists>i. get_prop h' v ''id'' = Inr i" by metis
    with set_keepFirst [of "\<lambda>v. get_prop h' v ''id''" b] b(3)
    have "\<forall>v \<in> set bucket. \<exists>i. get_prop h' v ''id'' = Inr i" by blast
    with b(2,3) show ?thesis by (simp add: distinct_keepFirst keepFirst_Nil)
  qed
  from bucket char fd show ?thesis by blast
qed

theorem sideload_buckets_deduplicated_witness:
  "buildResponse sampleEnv postModel (Arr [Ref 1, Ref 4]) [commentsAssoc, tagsAssoc] True None
     blogStore = Inr (batchDocument, linkedStore)
   \<and> fillDocument sampleEnv postModel (Arr [Ref 1, Ref 4]) [commentsAssoc, tagsAssoc] True None
     blogStore = Inr (batchFilled, linkedStore)
   \<and> map_of batchFilled ''comments'' = Some [Ref 2, Ref 3, Ref 3]
   \<and> map_of batchFilled ''tags'' = Some []
   \<and> map_of batchDocument ''comments'' = Some (keepFirst (\<lambda>v. get_prop linkedStore v ''id'') [Ref 2, Ref 3, Ref 3])
   \<and> map_of batchDocument ''tags'' = None
   \<and> distinct (map (\<lambda>v. get_prop linkedStore v ''id'') [Ref 2, Ref 3])"
proof -
  note main = sideload_buckets_deduplicated [OF buildResponse_batch]
  have root: "convertModelName sampleEnv (globalId postModel) None = ''posts''"
    by (simp add: run_defs sample_defs)
  have f1: "map_of batchFilled ''comments'' = Some [Ref 2, Ref 3, Ref 3]"
    and f2: "map_of batchFilled ''tags'' = Some []"
    by (simp_all add: batchFilled_def)
  from main fillDocument_batch root have
    char: "\<And>key. key \<noteq> ''posts'' \<Longrightarrow>
             map_of batchDocument key = dedupedBucket linkedStore (map_of batchFilled key)"
    by auto
  from char [of "''comments''"] f1 have c:
    "map_of batchDocument ''comments'' = Some (keepFirst (\<lambda>v. get_prop linkedStore v ''id'') [Ref 2, Ref 3, Ref 3])"
    by (simp add: dedupedBucket_def)
  from char [of "''tags''"] f2 have t: "map_of batchDocument ''tags'' = None"
    by (simp add: dedupedBucket_def)
  have "(''comments'', [Ref 2, Ref 3]) \<in> set batchDocument" by (simp add: batchDocument_def)
  with main root have d: "distinct (map (\<lambda>v. get_prop linkedStore v ''id'') [Ref 2, Ref 3])"
    by fastforce
  from buildResponse_batch fillDocument_batch f1 f2 c t d show ?thesis by (intro conjI)
qed

section \<open>One record or many\<close>



section \<open>Empty collections\<close>

text \<open>
  C10. With sideloading on, an association of type \<^verbatim>\<open>"collection"\<close> and policy
  \<^verbatim>\<open>"record"\<close> whose field on the record is absent, \<^verbatim>\<open>null\<close> or an empty list is stepped
  over: the record, the pending links, the document and the store come out of the loop body
  as they went in, so the field keeps its value and nothing is appended to the bucket. When
  it is the only association, the document that is returned holds the root key alone, with
  the record's fields as they were: the bucket, left empty, has been removed.
\<close>

theorem empty_collection_left_alone:
  assumes "a_type a = ''collection''" "a_include a = ''record''"
    and "h addr = Some r0"
    and "field r0 (a_alias a) = Undefined \<or> field r0 (a_alias a) = Null
         \<or> field r0 (a_alias a) = Arr []"
  shows "(\<forall>emi di ar links json st'.
            assocStep E emi di True ar a (r0, links, json, h) = Inr st'
              \<longrightarrow> st' = (r0, links, json, h))
       \<and> (\<forall>doc h'. buildResponse E model (Ref addr) [a] True ar h = Inr (doc, h')
              \<longrightarrow> doc = [(convertModelName E (globalId model) None, [Obj r0])] \<and> h' = h)"
proof -
  let ?di = "convertModelName E (globalId model) None"
  from assms(4) have em: "emptyCollection (field r0 (a_alias a))"
    by (simp add: emptyCollection_def)
  have step: "st' = (r0, links, json, h)"
    if "assocStep E emi di True ar a (r0, links, json, h) = Inr st'" for emi di ar links json st'
    using assocStep_empty [OF assms(1,2) em that] .
  have whole: "doc = [(?di, [Obj r0])] \<and> h' = h"
    if run: "buildResponse E model (Ref addr) [a] True ar h = Inr (doc, h')" for doc h'
  proof -
    from run obtain json0 res where
      sd: "startDocument E ?di [a] True = Inr json0" and
      p: "prepareOneRecord E (globalId model) ?di True ar [a] (Ref addr) (json0, h) = Inr res"
      by (auto simp: buildResponse_def fillDocument_def Let_def split: sum.splits)
    from prepareOneRecord_empty [OF assms(1,2,3) em p] have res: "res = (Obj r0, json0, h)" .
    from startDocument_one [OF sd assms(2)] obtain ami where
      j0: "json0 = (if a_alias a = ?di \<or> ami = ?di then [(?di, [])] else [(?di, []), (ami, [])])"
      by blast
    from run sd p res have fd: "fillDocument E model (Ref addr) [a] True ar h
        = Inr (AList.update ?di [Obj r0] json0, h)"
      by (simp add: fillDocument_def Let_def)
    show ?thesis
    proof (cases "a_alias a = ?di \<or> ami = ?di")
      case True
      with j0 have "AList.update ?di [Obj r0] json0 = [(?di, [Obj r0])]" by simp
      with fd have "buildResponse E model (Ref addr) [a] True ar h = Inr ([(?di, [Obj r0])], h)"
        by (simp add: buildResponse_def Let_def)
      with run show ?thesis by simp
    next
      case False
      with j0 have "AList.update ?di [Obj r0] json0 = [(?di, [Obj r0]), (ami, [])]" by simp
      moreover from False have "?di \<noteq> ami" by auto
      ultimately have "buildResponse E model (Ref addr) [a] True ar h
          = Inr ([(?di, [Obj r0])], h)"
        using fd by (simp add: buildResponse_def Let_def)
      with run show ?thesis by simp
    qed
  qed
  from step whole show ?thesis by blast
qed

theorem empty_collection_left_alone_witness:
  "a_type tagsAssoc = ''collection'' \<and> a_include tagsAssoc = ''record''
   \<and> blogStore 1 = Some [(''id'', Num 1), (''title'', Str ''Hello''),
                           (''comments'', Arr [Ref 2, Ref 3]), (''tags'', Arr [])]
   \<and> field [(''id'', Num 1), (''title'', Str ''Hello''), (''comments'', Arr [Ref 2, Ref 3]),
             (''tags'', Arr [])] (a_alias tagsAssoc) = Arr []
   \<and> buildResponse sampleEnv postModel (Ref 1) [tagsAssoc] True None blogStore
       = Inr ([(convertModelName sampleEnv (globalId postModel) None,
                [Obj [(''id'', Num 1), (''title'', Str ''Hello''),
                      (''comments'', Arr [Ref 2, Ref 3]), (''tags'', Arr [])]])], blogStore)"
proof -
  let ?r0 = "[(''id'', Num 1), (''title'', Str ''Hello''), (''comments'', Arr [Ref 2, Ref 3]),
              (''tags'', Arr [])]"
  have t: "a_type tagsAssoc = ''collection''" and i: "a_include tagsAssoc = ''record''"
    by (simp_all add: tagsAssoc_def)
  have s: "blogStore 1 = Some ?r0" by (simp add: blogStore_at)
  have f: "field ?r0 (a_alias tagsAssoc) = Arr []" by (simp add: field_def tagsAssoc_def)
  then have f': "field ?r0 (a_alias tagsAssoc) = Undefined \<or> field ?r0 (a_alias tagsAssoc) = Null
         \<or> field ?r0 (a_alias tagsAssoc) = Arr []" by simp
  note main = empty_collection_left_alone
      [where a = tagsAssoc and h = blogStore and addr = 1 and E = sampleEnv
         and model = postModel and ar = None, OF t i s f']
  from main buildResponse_no_tags have
    "buildResponse sampleEnv postModel (Ref 1) [tagsAssoc] True None blogStore
       = Inr ([(convertModelName sampleEnv (globalId postModel) None, [Obj ?r0])], blogStore)"
    by (cases "buildResponse sampleEnv postModel (Ref 1) [tagsAssoc] True None blogStore") auto
  with t i s f show ?thesis by (intro conjI)
qed

section \<open>Hyperlinks in place of a collection\<close>

text \<open>
  C3, as the code has it. The claim says that the field of a hyperlinked association is
  absent from the record that is built. An association whose alias is \<^verbatim>\<open>links\<close> has its
  field deleted at line 141, and line 160 then stores the links mapping under that very
  name: the field is present.
\<close>

theorem link_policy_alias_links_present:
  "a_type linksAssoc = ''collection'' \<and> a_include linksAssoc = ''link''
   \<and> buildResponse sampleEnv postModel (Ref 1) [linksAssoc] False None blogStore
       = Inr ([(''posts'',
                [Obj [(''id'', Num 1), (''title'', Str ''Hello''),
                      (''comments'', Arr [Ref 2, Ref 3]), (''tags'', Arr []),
                      (''links'', Obj [(''links'', Str ''/api/posts/1/links'')])]])], blogStore)
   \<and> map_of [(''id'', Num 1), (''title'', Str ''Hello''), (''comments'', Arr [Ref 2, Ref 3]),
              (''tags'', Arr []), (''links'', Obj [(''links'', Str ''/api/posts/1/links'')])]
         (a_alias linksAssoc) \<noteq> None"
  by (simp add: run_defs sample_defs linksAssoc_def blogStore_at)

text \<open>
  C3, amended. Take an association of type \<^verbatim>\<open>"collection"\<close> and policy \<^verbatim>\<open>"link"\<close> whose
  alias is not \<^verbatim>\<open>links\<close>, among descriptors none of which shares its alias and none of
  which, before it, is called \<^verbatim>\<open>id\<close>. Then every record that \<^verbatim>\<open>buildResponse\<close> builds,
  from one record or a list, lacks the field of that alias and has a \<^verbatim>\<open>links\<close> mapping
  whose entry for the alias is \<^verbatim>\<open>prefix/root-key/record-id/alias\<close>.
\<close>

theorem link_policy_replaces_field:
  assumes "buildResponse E model records (pre @ a # post) sideload ar h = Inr (doc, h')"
    and "a_type a = ''collection''" "a_include a = ''link''"
    and "a_alias a \<noteq> ''links''"
    and "\<forall>b \<in> set pre \<union> set post. a_alias b \<noteq> a_alias a"
    and "\<forall>b \<in> set pre. a_alias b \<noteq> ''id''"
  shows "\<exists>clones. map_of doc (convertModelName E (globalId model) None) = Some clones
           \<and> list_all2 (hyperlinked E (convertModelName E (globalId model) None) a h)
                (case records of Arr rs \<Rightarrow> rs | _ \<Rightarrow> [records]) clones"
proof -
  let ?di = "convertModelName E (globalId model) None"
  have step: "hyperlinked E ?di a h r c"
    if fr: "links_frame h h1" and "\<not> sideload \<longrightarrow> h1 = h"
      and p: "prepareOneRecord E (globalId model) ?di sideload ar (pre @ a # post) r (json, h1)
                = Inr (c, json', h1')"
    for r json h1 c json' h1'
  proof -
    from prepareOneRecord_link [OF p assms(2,3,5,6,4)] obtain addr fs1 cl lk where
      1: "r = Ref addr" "h1 addr = Some fs1" "c = Obj cl" "map_of cl (a_alias a) = None"
         "map_of cl ''links'' = Some (Obj lk)"
         "map_of lk (a_alias a) = Some (linkUrl E ?di (field fs1 ''id'') (a_alias a))" by blast
    from links_frame_None [OF fr, of addr] 1(2) obtain fs where fs: "h addr = Some fs"
      by (cases "h addr") auto
    have "''id'' \<noteq> ''links''" by simp
    from links_frame_field [OF fr fs 1(2) this] have "field fs1 ''id'' = field fs ''id''" .
    with 1(6) have "map_of lk (a_alias a) = Some (linkUrl E ?di (field fs ''id'') (a_alias a))"
      by simp
    with 1(1,3,4,5) fs show ?thesis unfolding hyperlinked_def by (intro exI conjI)
  qed
  show ?thesis
    by (rule buildResponse_clones
          [where P = "hyperlinked E ?di a h" and sl = sideload and assocs = "pre @ a # post",
           OF step assms(1)])
qed

theorem link_policy_replaces_field_witness:
  "buildResponse sampleEnv postModel (Arr [Ref 1, Ref 4]) ([] @ commentsLinkAssoc # [tagsAssoc])
     True None blogStore = Inr (linkedPosts, blogStore)
   \<and> a_type commentsLinkAssoc = ''collection'' \<and> a_include commentsLinkAssoc = ''link''
   \<and> a_alias commentsLinkAssoc \<noteq> ''links''
   \<and> a_alias tagsAssoc \<noteq> a_alias commentsLinkAssoc
   \<and> (\<exists>clones. map_of linkedPosts (convertModelName sampleEnv (globalId postModel) None)
                   = Some clones
         \<and> list_all2 (hyperlinked sampleEnv (convertModelName sampleEnv (globalId postModel) None)
                        commentsLinkAssoc blogStore) [Ref 1, Ref 4] clones)"
proof -
  have run: "buildResponse sampleEnv postModel (Arr [Ref 1, Ref 4])
      ([] @ commentsLinkAssoc # [tagsAssoc]) True None blogStore = Inr (linkedPosts, blogStore)"
    using buildResponse_linked_posts by (simp only: append_Nil)
  have t: "a_type commentsLinkAssoc = ''collection''" and i: "a_include commentsLinkAssoc = ''link''"
    and n: "a_alias commentsLinkAssoc \<noteq> ''links''"
    and o: "\<forall>b \<in> set [] \<union> set [tagsAssoc]. a_alias b \<noteq> a_alias commentsLinkAssoc"
    and d: "\<forall>b \<in> set ([] :: assoc list). a_alias b \<noteq> ''id''"
    by (simp_all add: commentsLinkAssoc_def tagsAssoc_def)
  note main = link_policy_replaces_field [OF run t i n o d]
  from main have
    "\<exists>clones. map_of linkedPosts (convertModelName sampleEnv (globalId postModel) None)
                   = Some clones
       \<and> list_all2 (hyperlinked sampleEnv (convertModelName sampleEnv (globalId postModel) None)
                        commentsLinkAssoc blogStore) [Ref 1, Ref 4] clones"
    by (simp only: jsval.case)
  moreover have "a_alias tagsAssoc \<noteq> a_alias commentsLinkAssoc"
    by (simp add: commentsLinkAssoc_def tagsAssoc_def)
  ultimately show ?thesis using run t i n by (intro conjI)
qed

section \<open>Id lists from a join index\<close>




section \<open>Sideloading a collection\<close>

text \<open>
  C1, as the code has it. The claim counts three top-level keys in the document built from
  one record whose collection holds two related records. The document has the root key and
  the key of the related model, and no other: two keys.
\<close>

theorem sideload_document_has_two_keys:
  "a_type commentsAssoc = ''collection'' \<and> a_include commentsAssoc = ''record''
   \<and> blogStore 1 = Some [(''id'', Num 1), (''title'', Str ''Hello''),
                           (''comments'', Arr [Ref 2, Ref 3]), (''tags'', Arr [])]
   \<and> buildResponse sampleEnv postModel (Ref 1) [commentsAssoc] True None blogStore
       = Inr (blogDocument, linkedStore)
   \<and> map fst blogDocument = [''posts'', ''comments'']
   \<and> length blogDocument \<noteq> 3"
proof -
  have "a_type commentsAssoc = ''collection''" "a_include commentsAssoc = ''record''"
    by (simp_all add: commentsAssoc_def)
  moreover have "map fst blogDocument = [''posts'', ''comments'']" "length blogDocument \<noteq> 3"
    by (simp_all add: blogDocument_def)
  moreover have "blogStore 1 = Some [(''id'', Num 1), (''title'', Str ''Hello''),
                           (''comments'', Arr [Ref 2, Ref 3]), (''tags'', Arr [])]"
    by (simp add: blogStore_at)
  ultimately show ?thesis using buildResponse_blog by (intro conjI)
qed

text \<open>
  C1, amended. Let one record be built with sideloading on and a single association of type
  \<^verbatim>\<open>"collection"\<close> and policy \<^verbatim>\<open>"record"\<close>, whose field holds two records of different
  ids, the key of their model being different from the root key and resolving back to that
  model. Then the document has two keys: under the root key the clone, in which the field
  has become the list of the two ids, and under the key of the related model exactly the two
  records. Each of them carries the hyperlinks of its model's collection associations, and
  is left as it was when the model has none.
\<close>

theorem sideload_two_related_records:
  assumes run: "buildResponse E model (Ref r) [a] True ar h = Inr (doc, h')"
    and a: "a_type a = ''collection''" "a_include a = ''record''"
    and root: "h r = Some fs" "field fs (a_alias a) = Arr [Ref c1, Ref c2]"
    and kids: "h c1 = Some f1" "h c2 = Some f2" "field f1 ''id'' \<noteq> field f2 ''id''"
    and keys: "assocModelIdentifier E a = Inr ck" "ck \<noteq> convertModelName E (globalId model) None"
    and cm: "models E (optKey (a_collection a)) = Some cm"
      "\<forall>nm. reverseModelName E ck None = Inr nm \<longrightarrow> models E nm = Some cm"
  shows "doc = [(convertModelName E (globalId model) None,
                 [Obj (AList.update (a_alias a) (Arr [field f1 ''id'', field f2 ''id'']) fs)]),
                (ck, [Ref c1, Ref c2])]
       \<and> length doc = 2
       \<and> (\<forall>x \<in> {c1, c2}.
             if hasCollection (associations cm)
             then \<exists>f f'. h x = Some f \<and> h' x = Some f'
                    \<and> linked E (convertModelName E (identity cm) None) (associations cm) f f'
             else h' x = h x)"
proof -
  let ?di = "convertModelName E (globalId model) None"
  let ?al = "a_alias a"
  from run obtain json2 h2 where
    fd: "fillDocument E model (Ref r) [a] True ar h = Inr (json2, h2)" and
    dd: "dedupeEach h2 ?di (map fst json2) json2 = Inr doc" and
    rl: "relinkEach E ?di doc h2 = Inr h'"
    by (auto simp: buildResponse_def Let_def split: sum.splits)
  from fd obtain json0 c j1 where
    sd: "startDocument E ?di [a] True = Inr json0" and
    p: "prepareOneRecord E (globalId model) ?di True ar [a] (Ref r) (json0, h) = Inr (c, j1, h2)" and
    j2: "json2 = AList.update ?di [c] j1"
    by (auto simp: fillDocument_def Let_def split: sum.splits)
  from p root(1) obtain r' links where
    st: "assocStep E (globalId model) ?di True ar a (fs, [], json0, h) = Inr (r', links, j1, h2)"
    and c: "c = Obj (if length links > 0 then AList.update ''links'' (Obj links) r' else r')"
    by (auto simp: prepareOneRecord_def toJSON_def split: sum.splits prod.splits)
  from a(2) have "\<not> (a_type a = ''collection'' \<and> a_include a = ''link'')" by simp
  from assocStep_links_same [OF st this] c have c': "c = Obj r'" by simp
  from st keys(1) a(1) obtain r4 l4 j4 h4 where
    cb: "collectionBranch E (globalId model) ?di True ar ck a (fs, [], json0, h) = Inr (r4, l4, j4, h4)"
    and sm: "sideloadModel E True ck a (r4, j4, h4) = Inr (r', j1, h2)"
    by (auto simp: assocStep_def split: sum.splits prod.splits)
  from sm a(1) have e4: "r4 = r'" "j4 = j1" "h4 = h2" by (simp_all add: sideloadModel_def)
  from cb a(2) e4 have sc: "sideloadCollection E True ck a (fs, json0, h) = Inr (r', j1, h2)"
    by (auto simp: collectionBranch_def Let_def indexCollection_def linkCollection_def
             split: sum.splits prod.splits)
  from sc a(2) root(2) obtain bucket linked' ids where
    b: "map_of json0 ck = Some bucket" and
    la: "linkAssociations E (models E (optKey (a_collection a))) (Arr [Ref c1, Ref c2]) h
           = Inr (linked', h2)" and
    ri: "reduceIds h2 [Ref c1, Ref c2] [] = Inr ids" and
    r': "r' = AList.update ?al (Arr ids) fs" and
    j1: "j1 = AList.update ck (bucket @ linked') json0"
    by (auto simp: sideloadCollection_def concat_arg_def split: sum.splits option.splits)
  from linkAssociations_out [OF la] have lk: "linked' = [Ref c1, Ref c2]" by simp
  from startDocument_one [OF sd a(2)] keys(1) have
    "json0 = (if ?al = ?di \<or> ck = ?di then [(?di, [])] else [(?di, []), (ck, [])])" by simp
  with b keys(2) have j0: "json0 = [(?di, []), (ck, [])]" and bk: "bucket = []"
    by (auto split: if_splits)
  note fr1 = linkAssociations_frame [OF la]
  have "''id'' \<noteq> ''links''" by simp
  note gp = links_frame_get_prop [OF fr1 this]
  have id1: "get_prop h2 (Ref c1) ''id'' = Inr (field f1 ''id'')"
    unfolding gp [of "Ref c1"] using kids(1) by simp
  have id2: "get_prop h2 (Ref c2) ''id'' = Inr (field f2 ''id'')"
    unfolding gp [of "Ref c2"] using kids(2) by simp
  from ri id1 id2 have ids: "ids = [field f1 ''id'', field f2 ''id'']" by simp
  from j2 j1 j0 bk lk keys(2) c' r' ids have json2:
    "json2 = [(?di, [Obj (AList.update ?al (Arr [field f1 ''id'', field f2 ''id'']) fs)]),
              (ck, [Ref c1, Ref c2])]"
    by auto
  from dd json2 keys(2) id1 id2 kids(3) have doc: "doc = json2"
    by (auto split: sum.splits if_splits)
  from rl doc json2 keys(2) obtain nm out where
    nm: "reverseModelName E ck None = Inr nm" and
    la2: "linkAssociations E (models E nm) (Arr [Ref c1, Ref c2]) h2 = Inr (out, h')"
    by (auto simp: isNumber_def isString_def split: sum.splits if_splits)
  from cm(2) nm have m2: "models E nm = Some cm" by simp
  have links: "if hasCollection (associations cm)
             then \<exists>f f'. h x = Some f \<and> h' x = Some f'
                    \<and> linked E (convertModelName E (identity cm) None) (associations cm) f f'
             else h' x = h x" if x: "x \<in> {c1, c2}" for x
  proof (cases "hasCollection (associations cm)")
    case True
    from x have in_rs: "Ref x \<in> set [Ref c1, Ref c2]" by auto
    from linkAssociations_linked [OF la [unfolded cm(1)] True in_rs] obtain f fa where
      1: "h x = Some f" "h2 x = Some fa"
         "linked E (convertModelName E (identity cm) None) (associations cm) f fa" by blast
    from linkAssociations_linked [OF la2 [unfolded m2] True in_rs] 1(2) obtain fb where
      2: "h' x = Some fb"
         "linked E (convertModelName E (identity cm) None) (associations cm) fa fb" by auto
    from linked_again [OF 1(3) 2(2)] 1(1) 2(1) True show ?thesis by auto
  next
    case False
    from linkAssociations_unlinked [OF la [unfolded cm(1)] False]
      linkAssociations_unlinked [OF la2 [unfolded m2] False] False
    show ?thesis by simp
  qed
  from links have "\<forall>x \<in> {c1, c2}.
             if hasCollection (associations cm)
             then \<exists>f f'. h x = Some f \<and> h' x = Some f'
                    \<and> linked E (convertModelName E (identity cm) None) (associations cm) f f'
             else h' x = h x" by blast
  moreover from doc json2 have "doc = [(?di, [Obj (AList.update ?al (Arr [field f1 ''id'', field f2 ''id'']) fs)]),
                (ck, [Ref c1, Ref c2])]" "length doc = 2" by simp_all
  ultimately show ?thesis by (intro conjI)
qed


theorem sideload_two_related_records_witness:
  "buildResponse sampleEnv postModel (Ref 1) [commentsAssoc] True None blogStore
     = Inr (blogDocument, linkedStore)
   \<and> a_type commentsAssoc = ''collection'' \<and> a_include commentsAssoc = ''record''
   \<and> blogStore 1 = Some [(''id'', Num 1), (''title'', Str ''Hello''),
                           (''comments'', Arr [Ref 2, Ref 3]), (''tags'', Arr [])]
   \<and> blogStore 2 = Some [(''id'', Num 10), (''body'', Str ''first'')]
   \<and> blogStore 3 = Some [(''id'', Num 11), (''body'', Str ''second'')]
   \<and> assocModelIdentifier sampleEnv commentsAssoc = Inr ''comments''
   \<and> ''comments'' \<noteq> convertModelName sampleEnv (globalId postModel) None
   \<and> models sampleEnv (optKey (a_collection commentsAssoc)) = Some commentModel
   \<and> reverseModelName sampleEnv ''comments'' None = Inr ''comment''
   \<and> models sampleEnv ''comment'' = Some commentModel
   \<and> blogDocument =
        [(convertModelName sampleEnv (globalId postModel) None,
          [Obj (AList.update (a_alias commentsAssoc) (Arr [Num 10, Num 11])
                  [(''id'', Num 1), (''title'', Str ''Hello''),
                   (''comments'', Arr [Ref 2, Ref 3]), (''tags'', Arr [])])]),
         (''comments'', [Ref 2, Ref 3])]
   \<and> length blogDocument = 2
   \<and> hasCollection (associations commentModel)
   \<and> (\<exists>f f'. blogStore 2 = Some f \<and> linkedStore 2 = Some f'
         \<and> linked sampleEnv (convertModelName sampleEnv (identity commentModel) None)
              (associations commentModel) f f')
   \<and> (\<exists>f f'. blogStore 3 = Some f \<and> linkedStore 3 = Some f'
         \<and> linked sampleEnv (convertModelName sampleEnv (identity commentModel) None)
              (associations commentModel) f f')"
proof -
  let ?fs = "[(''id'', Num 1), (''title'', Str ''Hello''),
              (''comments'', Arr [Ref 2, Ref 3]), (''tags'', Arr [])]"
  let ?f1 = "[(''id'', Num 10), (''body'', Str ''first'')]"
  let ?f2 = "[(''id'', Num 11), (''body'', Str ''second'')]"
  have t: "a_type commentsAssoc = ''collection''" and i: "a_include commentsAssoc = ''record''"
    by (simp_all add: commentsAssoc_def)
  have s1: "blogStore 1 = Some ?fs" and s2: "blogStore 2 = Some ?f1" and s3: "blogStore 3 = Some ?f2"
    by (simp_all add: blogStore_at)
  have fld: "field ?fs (a_alias commentsAssoc) = Arr [Ref 2, Ref 3]"
    by (simp add: field_def commentsAssoc_def)
  have dif: "field ?f1 ''id'' \<noteq> field ?f2 ''id''" by (simp add: field_def)
  have ck: "assocModelIdentifier sampleEnv commentsAssoc = Inr ''comments''"
    and rk: "''comments'' \<noteq> convertModelName sampleEnv (globalId postModel) None"
    and cm: "models sampleEnv (optKey (a_collection commentsAssoc)) = Some commentModel"
    and rv: "reverseModelName sampleEnv ''comments'' None = Inr ''comment''"
    and m2: "models sampleEnv ''comment'' = Some commentModel"
    by (simp_all add: run_defs sample_defs)
  from rv m2 have rev: "\<forall>nm. reverseModelName sampleEnv ''comments'' None = Inr nm
      \<longrightarrow> models sampleEnv nm = Some commentModel" by simp
  have col: "hasCollection (associations commentModel)"
    by (simp add: hasCollection_def commentModel_def)
  note main = sideload_two_related_records
    [where E = sampleEnv and model = postModel and r = 1 and a = commentsAssoc and h = blogStore
       and ?c1.0 = 2 and ?c2.0 = 3 and cm = commentModel,
     OF buildResponse_blog t i s1 fld s2 s3 dif ck rk cm rev]
  from main have d: "blogDocument =
        [(convertModelName sampleEnv (globalId postModel) None,
          [Obj (AList.update (a_alias commentsAssoc) (Arr [Num 10, Num 11]) ?fs)]),
         (''comments'', [Ref 2, Ref 3])]" and l: "length blogDocument = 2"
    by (simp_all add: field_def)
  from main col have
    k2: "\<exists>f f'. blogStore 2 = Some f \<and> linkedStore 2 = Some f'
         \<and> linked sampleEnv (convertModelName sampleEnv (identity commentModel) None)
              (associations commentModel) f f'"
    and k3: "\<exists>f f'. blogStore 3 = Some f \<and> linkedStore 3 = Some f'
         \<and> linked sampleEnv (convertModelName sampleEnv (identity commentModel) None)
              (associations commentModel) f f'"
    by simp_all
  from buildResponse_blog t i s1 s2 s3 ck rk cm rv m2 d l col k2 k3 show ?thesis
    by (intro conjI)
qed

end
